theory Spec2Isabelle
  imports
    Complex_Main
    "HOL-Library.Char_ord"
    "HOL-Library.List_Lexorder"
    "HOL-Library.Product_Lexorder"
    "HOL-Library.Multiset"
    "HOL-Library.Sublist"
begin

section \<open>The job simulation engine of app.py\<close>

text \<open>
  The development embeds the class \<^verbatim>\<open>BlueQubitJobSimulator\<close> of \<^verbatim>\<open>src/app.py\<close>, the
  two timestamp helpers \<^verbatim>\<open>get_display_tz\<close> and \<^verbatim>\<open>now_iso\<close>, and the route handler
  \<^verbatim>\<open>get_jobs_api\<close>. Every method is modelled as one atomic call on the simulator object:
  the interleaving of the background thread with request threads is outside the model.

  What the program takes from outside is an argument of the model:
  \<^item> the values returned by \<^verbatim>\<open>random.choice\<close>, \<^verbatim>\<open>random.randint\<close> and \<^verbatim>\<open>random.uniform\<close>
    in \<^verbatim>\<open>create_job\<close> (record \<open>draws\<close>);
  \<^item> the values that successive calls of \<^verbatim>\<open>random.random()\<close> return (type \<open>rng\<close>);
    floats are read as the rationals they denote;
  \<^item> the configuration, the process environment, the time-zone database behind
    \<^verbatim>\<open>ZoneInfo\<close> and the clock behind \<^verbatim>\<open>datetime.now(tz).isoformat()\<close> (record \<open>host\<close>);
  \<^item> the builtin \<^verbatim>\<open>int\<close> applied to a query string (argument \<open>int_of\<close>).
  Python draws all random values from one generator; here the draws of \<^verbatim>\<open>create_job\<close> and
  those of \<^verbatim>\<open>random.random()\<close> are separate arguments, and every statement holds for all
  of them. The thread that \<^verbatim>\<open>__init__\<close> starts and the \<^verbatim>\<open>sleep\<close> of its loop are left
  out; the body of the loop is \<open>simulation_step\<close>.
\<close>

subsection \<open>Data\<close>

datatype status = QUEUED | RUNNING | COMPLETED | FAILED

text \<open>The four strings \<^verbatim>\<open>random.choice\<close> picks from, in the order of the source.\<close>

datatype algorithm =
    Quantum_Fourier_Transform
  | Variational_Quantum_Eigensolver
  | Grovers_Algorithm
  | Quantum_Phase_Estimation

text \<open>The job dictionary built in \<^verbatim>\<open>create_job\<close>; its keys \<^verbatim>\<open>id\<close> and \<^verbatim>\<open>type\<close> are
  the fields \<open>job_id\<close> and \<open>job_type\<close>.\<close>

record job =
  job_id :: string
  job_type :: algorithm
  status :: status
  created_at :: string
  estimated_runtime :: int
  success_probability :: rat
  manual :: bool

text \<open>The attributes set by \<^verbatim>\<open>__init__\<close>.\<close>

record simulator =
  jobs :: "job list"
  job_counter :: int
  running :: bool
  max_jobs :: int

text \<open>What a failed \<^verbatim>\<open>ZoneInfo\<close> lookup raises, and what \<^verbatim>\<open>int\<close> raises on a string that
  is no integer.\<close>

datatype py_error = ZoneInfoNotFoundError | ValueError

text \<open>The application setting and the environment variable \<^verbatim>\<open>DISPLAY_TZ\<close> (\<open>None\<close> when
  unset), the lookup \<^verbatim>\<open>ZoneInfo(name)\<close> (\<open>None\<close> when it raises) and the current time
  rendered by \<^verbatim>\<open>datetime.now(tz=tz).isoformat()\<close>.\<close>

record 'z host =
  config_DISPLAY_TZ :: "string option"
  environ_DISPLAY_TZ :: "string option"
  ZoneInfo :: "string \<Rightarrow> 'z option"
  now_isoformat :: "'z \<Rightarrow> string"

text \<open>The three values \<^verbatim>\<open>create_job\<close> draws.\<close>

record draws =
  choice :: algorithm
  randint :: int
  uniform :: rat

type_synonym rng = "nat \<Rightarrow> rat"

text \<open>One call of \<^verbatim>\<open>random.random()\<close>: the next value, and the generator after it.\<close>

definition random_random :: "rng \<Rightarrow> rat \<times> rng" where
  "random_random r = (r 0, \<lambda>n. r (Suc n))"

subsection \<open>Timestamps\<close>

text \<open>\<^verbatim>\<open>a or b\<close> where \<open>a\<close> is an optional string: \<^verbatim>\<open>None\<close> and the empty string
  are falsy.\<close>

definition py_or :: "string option \<Rightarrow> string \<Rightarrow> string" where
  "py_or a b = (case a of None \<Rightarrow> b | Some s \<Rightarrow> if s = [] then b else s)"

definition get_display_tz :: "'z host \<Rightarrow> string" where
  "get_display_tz h = py_or (config_DISPLAY_TZ h) (py_or (environ_DISPLAY_TZ h) ''UTC'')"

text \<open>\<^verbatim>\<open>ZoneInfo(name)\<close> raises when the database has no such zone (\<open>None\<close> here); the
  handler catches every exception and calls \<^verbatim>\<open>ZoneInfo('UTC')\<close>, which is outside the
  \<^verbatim>\<open>try\<close> and raises to the caller when that lookup fails too.\<close>

definition now_iso :: "'z host \<Rightarrow> py_error + string" where
  "now_iso h =
     (case ZoneInfo h (get_display_tz h) of
        Some tz \<Rightarrow> Inr (now_isoformat h tz)
      | None \<Rightarrow>
          (case ZoneInfo h ''UTC'' of
             Some tz \<Rightarrow> Inr (now_isoformat h tz)
           | None \<Rightarrow> Inl ZoneInfoNotFoundError))"

subsection \<open>Job identifiers\<close>

definition digit_char :: "nat \<Rightarrow> char" where
  "digit_char d = char_of (48 + d)"

text \<open>Decimal rendering of a Python integer, as the f-string does it.\<close>

fun str_nat :: "nat \<Rightarrow> string" where
  "str_nat n = (if n < 10 then [digit_char n] else str_nat (n div 10) @ [digit_char (n mod 10)])"

declare str_nat.simps [simp del]

definition str_int :: "int \<Rightarrow> string" where
  "str_int i = (if i < 0 then CHR ''-'' # str_nat (nat (- i)) else str_nat (nat i))"

definition bqj :: "int \<Rightarrow> string" where
  "bqj n = ''BQJ-'' @ str_int n"

subsection \<open>The simulator\<close>

text \<open>The state after \<^verbatim>\<open>__init__(max_jobs)\<close>.\<close>

definition init :: "int \<Rightarrow> simulator" where
  "init m = \<lparr>jobs = [], job_counter = 1, running = True, max_jobs = m\<rparr>"

text \<open>\<^verbatim>\<open>create_job\<close>: the dictionary is built first (an exception of \<^verbatim>\<open>now_iso\<close> leaves
  the object untouched), then the counter is bumped, the job appended and, when the list
  is longer than \<^verbatim>\<open>max_jobs\<close>, \<^verbatim>\<open>pop(0)\<close> removes its head (the list is not empty there).\<close>

definition create_job :: "'z host \<Rightarrow> draws \<Rightarrow> bool \<Rightarrow> simulator \<Rightarrow> py_error + (job \<times> simulator)" where
  "create_job h d man s =
     (case now_iso h of
        Inl e \<Rightarrow> Inl e
      | Inr ts \<Rightarrow>
          (let j = \<lparr>job_id = bqj (job_counter s), job_type = choice d, status = QUEUED,
                     created_at = ts, estimated_runtime = randint d,
                     success_probability = uniform d, manual = man\<rparr>;
               s1 = s\<lparr>job_counter := job_counter s + 1\<rparr>;
               s2 = s1\<lparr>jobs := jobs s1 @ [j]\<rparr>;
               s3 = (if int (length (jobs s2)) > max_jobs s2 then s2\<lparr>jobs := tl (jobs s2)\<rparr> else s2)
           in Inr (j, s3)))"

text \<open>The body of the loop of \<^verbatim>\<open>update_jobs\<close> for one job; the thresholds 0.4 and 0.3
  and the quotient by 100 are taken as rationals.\<close>

definition update_job :: "rng \<Rightarrow> job \<Rightarrow> job \<times> rng" where
  "update_job r j =
     (if status j = QUEUED then
        (let (x, r1) = random_random r
         in if x < 4 / 10 then (j\<lparr>status := RUNNING\<rparr>, r1) else (j, r1))
      else if status j = RUNNING then
        (let (x, r1) = random_random r
         in if x < 3 / 10 then
              (let (y, r2) = random_random r1
               in (j\<lparr>status := (if y < success_probability j / 100 then COMPLETED else FAILED)\<rparr>, r2))
            else (j, r1))
      else (j, r))"

fun update_loop :: "rng \<Rightarrow> job list \<Rightarrow> job list \<times> rng" where
  "update_loop r [] = ([], r)"
| "update_loop r (j # js) =
     (let (j', r1) = update_job r j; (js', r2) = update_loop r1 js in (j' # js', r2))"

definition update_jobs :: "rng \<Rightarrow> simulator \<Rightarrow> simulator \<times> rng" where
  "update_jobs r s = (let (js, r') = update_loop r (jobs s) in (s\<lparr>jobs := js\<rparr>, r'))"

text \<open>The dictionary \<^verbatim>\<open>status_order\<close> of \<^verbatim>\<open>get_jobs\<close>; each of the four statuses is a
  key of it.\<close>

definition status_order :: "status \<Rightarrow> int" where
  "status_order st = (case st of RUNNING \<Rightarrow> 0 | QUEUED \<Rightarrow> 1 | FAILED \<Rightarrow> 2 | COMPLETED \<Rightarrow> 3)"

text \<open>The sort key, a tuple compared lexicographically; strings compare by code point.\<close>

definition sort_key_of :: "job \<Rightarrow> int \<times> string" where
  "sort_key_of j = (status_order (status j), created_at j)"

text \<open>The slice \<^verbatim>\<open>xs[start:]\<close>: a negative start counts from the end, and the start is
  clamped to the list.\<close>

definition slice_from :: "int \<Rightarrow> 'a list \<Rightarrow> 'a list" where
  "slice_from start xs =
     (let n = int (length xs);
          i = (if start < 0 then max 0 (start + n) else min start n)
      in drop (nat i) xs)"

text \<open>\<^verbatim>\<open>sorted\<close> is a stable sort, as \<open>sort_key\<close> is; it builds a new list.\<close>

definition get_jobs :: "simulator \<Rightarrow> int \<Rightarrow> job list" where
  "get_jobs s limit = (let sorted_jobs = sort_key sort_key_of (jobs s) in slice_from (- limit) sorted_jobs)"

definition clear_completed :: "simulator \<Rightarrow> int \<times> simulator" where
  "clear_completed s =
     (let completed_count = int (length (filter (\<lambda>j. status j = COMPLETED) (jobs s)))
      in (completed_count, s\<lparr>jobs := filter (\<lambda>j. status j \<noteq> COMPLETED) (jobs s)\<rparr>))"

text \<open>The loop of \<^verbatim>\<open>get_job\<close>; \<open>None\<close> is the empty dictionary returned after the loop.\<close>

fun get_job_loop :: "job list \<Rightarrow> string \<Rightarrow> job option" where
  "get_job_loop [] i = None"
| "get_job_loop (j # js) i = (if job_id j = i then Some j else get_job_loop js i)"

definition get_job :: "simulator \<Rightarrow> string \<Rightarrow> job option" where
  "get_job s i = get_job_loop (jobs s) i"

text \<open>One pass of the body of \<^verbatim>\<open>simulation_loop\<close>; an exception of \<^verbatim>\<open>create_job\<close>
  ends the loop.\<close>

definition simulation_step ::
  "'z host \<Rightarrow> draws \<Rightarrow> rng \<Rightarrow> simulator \<Rightarrow> py_error + (simulator \<times> rng)" where
  "simulation_step h d r s =
     (let (x, r1) = random_random r
      in if x < 1 / 2 then
           (case create_job h d False s of
              Inl e \<Rightarrow> Inl e
            | Inr (j, s1) \<Rightarrow> Inr (update_jobs r1 s1))
         else Inr (update_jobs r1 s))"

text \<open>The handler \<^verbatim>\<open>get_jobs_api\<close>: the query parameter \<^verbatim>\<open>limit\<close>, when present, goes
  through \<^verbatim>\<open>int\<close> (which may raise) and then to \<^verbatim>\<open>get_jobs\<close> as it is; the default
  is 50. The result is the list under the key \<^verbatim>\<open>jobs\<close> of the response.\<close>

definition get_jobs_api ::
  "(string \<Rightarrow> py_error + int) \<Rightarrow> string option \<Rightarrow> simulator \<Rightarrow> py_error + job list" where
  "get_jobs_api int_of arg s =
     (case (case arg of None \<Rightarrow> Inr 50 | Some a \<Rightarrow> int_of a) of
        Inl e \<Rightarrow> Inl e
      | Inr limit \<Rightarrow> Inr (get_jobs s limit))"

subsection \<open>Sequences of calls\<close>

text \<open>A call of one of the five public methods, with what it takes from outside, and
  what it returns. A call that raises leaves the simulator as it was.\<close>

datatype 'z op =
    CreateJob "'z host" draws bool
  | UpdateJobs rng
  | GetJobs int
  | GetJob string
  | ClearCompleted

datatype result =
    Created job
  | Raised py_error
  | Updated
  | Listed "job list"
  | Found "job option"
  | Cleared int

fun call :: "'z op \<Rightarrow> simulator \<Rightarrow> result \<times> simulator" where
  "call (CreateJob h d man) s =
     (case create_job h d man s of Inl e \<Rightarrow> (Raised e, s) | Inr (j, s') \<Rightarrow> (Created j, s'))"
| "call (UpdateJobs r) s = (Updated, fst (update_jobs r s))"
| "call (GetJobs limit) s = (Listed (get_jobs s limit), s)"
| "call (GetJob i) s = (Found (get_job s i), s)"
| "call ClearCompleted s = (case clear_completed s of (n, s') \<Rightarrow> (Cleared n, s'))"

text \<open>The results and the successive states of a sequence of calls.\<close>

fun run :: "'z op list \<Rightarrow> simulator \<Rightarrow> (result \<times> simulator) list" where
  "run [] s = []"
| "run (c # cs) s = call c s # run cs (snd (call c s))"

fun exec :: "'z op list \<Rightarrow> simulator \<Rightarrow> simulator" where
  "exec [] s = s"
| "exec (c # cs) s = exec cs (snd (call c s))"

text \<open>The jobs that the calls of \<^verbatim>\<open>create_job\<close> returned, in order.\<close>

fun created_jobs :: "(result \<times> simulator) list \<Rightarrow> job list" where
  "created_jobs [] = []"
| "created_jobs ((Created j, s) # t) = j # created_jobs t"
| "created_jobs (x # t) = created_jobs t"

subsection \<open>Notions of the specification\<close>

text \<open>One step along the chain QUEUED, RUNNING, then COMPLETED or FAILED; staying is
  allowed.\<close>

fun advance :: "status \<Rightarrow> status \<Rightarrow> bool" where
  "advance QUEUED b = (b = QUEUED \<or> b = RUNNING)"
| "advance RUNNING b = (b \<noteq> QUEUED)"
| "advance COMPLETED b = (b = COMPLETED)"
| "advance FAILED b = (b = FAILED)"

text \<open>The statuses a job identifier shows in a list of states, where it is present.\<close>

fun status_history :: "string \<Rightarrow> simulator list \<Rightarrow> status list" where
  "status_history i [] = []"
| "status_history i (s # ss) =
     (case get_job s i of None \<Rightarrow> status_history i ss | Some j \<Rightarrow> status j # status_history i ss)"

text \<open>A history that starts at QUEUED and moves by \<open>advance\<close> only.\<close>

definition lifecycle :: "status list \<Rightarrow> bool" where
  "lifecycle xs = ((xs = [] \<or> hd xs = QUEUED) \<and> successively advance xs)"

text \<open>The last \<open>n\<close> entries of a list: all of it when it is shorter, none when \<open>n \<le> 0\<close>.\<close>

definition last_entries :: "int \<Rightarrow> 'a list \<Rightarrow> 'a list" where
  "last_entries n xs = drop (length xs - nat n) xs"

text \<open>Ascending status priority, ties broken by ascending \<^verbatim>\<open>created_at\<close>.\<close>

definition priority_then_time :: "job \<Rightarrow> job \<Rightarrow> bool" where
  "priority_then_time a b =
     (status_order (status a) < status_order (status b) \<or>
      (status_order (status a) = status_order (status b) \<and> created_at a \<le> created_at b))"

text \<open>Every field of a job but its status is the same in \<open>a\<close> and \<open>b\<close>.\<close>

definition unchanged_fields :: "job \<Rightarrow> job \<Rightarrow> bool" where
  "unchanged_fields a b =
     (job_id b = job_id a \<and> job_type b = job_type a \<and> created_at b = created_at a \<and>
      estimated_runtime b = estimated_runtime a \<and>
      success_probability b = success_probability a \<and> manual b = manual a)"

text \<open>Identifiers \<^verbatim>\<open>BQJ-x\<close> and \<^verbatim>\<open>BQJ-y\<close> with \<open>x < y\<close>.\<close>

definition id_before :: "string \<Rightarrow> string \<Rightarrow> bool" where
  "id_before a b = (\<exists>x y. a = bqj x \<and> b = bqj y \<and> x < y)"

text \<open>The identifiers of the collection are \<^verbatim>\<open>BQJ-n\<close> with \<open>n\<close> increasing along the
  list, positive and below the counter, which is positive too.\<close>

definition ids_ordered :: "simulator \<Rightarrow> bool" where
  "ids_ordered s =
     (1 \<le> job_counter s \<and> sorted_wrt id_before (map job_id (jobs s)) \<and>
      (\<forall>i \<in> set (map job_id (jobs s)). \<exists>n. i = bqj n \<and> 1 \<le> n \<and> n < job_counter s))"

text \<open>No later call of \<^verbatim>\<open>create_job\<close> can assign the identifier \<open>i\<close>.\<close>

definition retired :: "string \<Rightarrow> simulator \<Rightarrow> bool" where
  "retired i s = (\<forall>n \<ge> job_counter s. i \<noteq> bqj n)"

subsection \<open>Example states\<close>

definition ex_host :: "int host" where
  "ex_host = \<lparr>config_DISPLAY_TZ = Some ''Mars/Olympus'', environ_DISPLAY_TZ = None,
     ZoneInfo = (\<lambda>n. if n = ''UTC'' then Some 0 else if n = ''Asia/Kolkata'' then Some 330 else None),
     now_isoformat = (\<lambda>z. if z = 0 then ''2025-01-01T00:00:00+00:00'' else ''2025-01-01T05:30:00+05:30'')\<rparr>"

text \<open>The same host with a zone database in which no name, UTC included, is found.\<close>

definition ex_no_db :: "int host" where
  "ex_no_db = ex_host\<lparr>ZoneInfo := (\<lambda>n. None)\<rparr>"

definition ex_draws :: draws where
  "ex_draws = \<lparr>choice = Grovers_Algorithm, randint = 30, uniform = 90\<rparr>"

definition ex_job :: "int \<Rightarrow> status \<Rightarrow> string \<Rightarrow> job" where
  "ex_job n st ts = \<lparr>job_id = bqj n, job_type = Grovers_Algorithm, status = st, created_at = ts,
     estimated_runtime = 30, success_probability = 90, manual = False\<rparr>"

definition ex_sim :: simulator where
  "ex_sim = \<lparr>jobs = [ex_job 1 COMPLETED ''a'', ex_job 2 QUEUED ''b'', ex_job 3 COMPLETED ''c'',
       ex_job 4 RUNNING ''d''],
     job_counter = 5, running = True, max_jobs = 200\<rparr>"

text \<open>The job that \<^verbatim>\<open>create_job\<close> builds on \<open>ex_host\<close> with \<open>ex_draws\<close> when the counter
  is \<open>n\<close>, and a simulator holding such jobs.\<close>

definition ex_new :: "int \<Rightarrow> job" where
  "ex_new n = ex_job n QUEUED ''2025-01-01T00:00:00+00:00''"

definition ex_state :: "int list \<Rightarrow> int \<Rightarrow> int \<Rightarrow> simulator" where
  "ex_state ns c m = \<lparr>jobs = map ex_new ns, job_counter = c, running = True, max_jobs = m\<rparr>"

section \<open>Properties\<close>

subsection \<open>clear_completed\<close>

text \<open>
  C6. \<^verbatim>\<open>clear_completed\<close> returns the number of COMPLETED jobs of the collection, leaves
  a subsequence of the collection (so relative order is kept) in which every job occurs
  as often as before when it is not COMPLETED and not at all when it is, and touches no
  other attribute of the simulator.
\<close>

theorem clear_completed_exact:
  "clear_completed s = (n, s') \<Longrightarrow>
     n = int (card {i. i < length (jobs s) \<and> status (jobs s ! i) = COMPLETED}) \<and>
     subseq (jobs s') (jobs s) \<and>
     (\<forall>j. count (mset (jobs s')) j = (if status j = COMPLETED then 0 else count (mset (jobs s)) j)) \<and>
     int (length (jobs s')) = int (length (jobs s)) - n \<and>
     job_counter s' = job_counter s \<and> max_jobs s' = max_jobs s \<and> running s' = running s"
proof -
  assume a: "clear_completed s = (n, s')"
  let ?C = "\<lambda>j. status j = COMPLETED"
  from a have n: "n = int (length (filter ?C (jobs s)))"
    and s': "s' = s\<lparr>jobs := filter (\<lambda>j. \<not> ?C j) (jobs s)\<rparr>"
    by (auto simp: clear_completed_def Let_def)
  have "length (filter ?C (jobs s)) + length (filter (\<lambda>j. \<not> ?C j) (jobs s)) = length (jobs s)"
    by (rule sum_length_filter_compl)
  with n s' show ?thesis
    by (auto simp: length_filter_conv_card)
qed

theorem clear_completed_exact_witness:
  "clear_completed ex_sim = (2, ex_sim\<lparr>jobs := [ex_job 2 QUEUED ''b'', ex_job 4 RUNNING ''d'']\<rparr>) \<and>
   subseq [ex_job 2 QUEUED ''b'', ex_job 4 RUNNING ''d''] (jobs ex_sim)"
proof -
  have h: "clear_completed ex_sim = (2, ex_sim\<lparr>jobs := [ex_job 2 QUEUED ''b'', ex_job 4 RUNNING ''d'']\<rparr>)"
    by (simp add: clear_completed_def ex_sim_def ex_job_def)
  from clear_completed_exact [OF h] h show ?thesis by simp
qed

subsection \<open>get_job\<close>

lemma get_job_loop_None: "get_job_loop js i = None \<longleftrightarrow> (\<forall>j \<in> set js. job_id j \<noteq> i)"
  by (induction js) auto

lemma get_job_loop_Some:
  "get_job_loop js i = Some j \<longleftrightarrow>
     (\<exists>k < length js. js ! k = j \<and> job_id j = i \<and> (\<forall>m < k. job_id (js ! m) \<noteq> i))"
proof (induction js)
  case Nil
  then show ?case by simp
next
  case (Cons a js)
  show ?case
  proof (cases "job_id a = i")
    case True
    have "(\<exists>k < length (a # js). (a # js) ! k = j \<and> job_id j = i \<and> (\<forall>m < k. job_id ((a # js) ! m) \<noteq> i))
          \<longleftrightarrow> a = j"
    proof
      assume "\<exists>k < length (a # js). (a # js) ! k = j \<and> job_id j = i \<and> (\<forall>m < k. job_id ((a # js) ! m) \<noteq> i)"
      then obtain k where k: "(a # js) ! k = j" "\<forall>m < k. job_id ((a # js) ! m) \<noteq> i" by blast
      have "k = 0"
      proof (rule ccontr)
        assume "k \<noteq> 0"
        then have "0 < k" by simp
        with k(2) have "job_id ((a # js) ! 0) \<noteq> i" by blast
        with True show False by simp
      qed
      with k(1) show "a = j" by simp
    next
      assume "a = j"
      with True have "(a # js) ! 0 = j \<and> job_id j = i \<and> (\<forall>m < (0::nat). job_id ((a # js) ! m) \<noteq> i)"
        by simp
      then show "\<exists>k < length (a # js). (a # js) ! k = j \<and> job_id j = i \<and> (\<forall>m < k. job_id ((a # js) ! m) \<noteq> i)"
        by (intro exI [of _ 0]) simp
    qed
    with True show ?thesis by simp
  next
    case False
    have "(\<exists>k < length (a # js). (a # js) ! k = j \<and> job_id j = i \<and> (\<forall>m < k. job_id ((a # js) ! m) \<noteq> i))
          \<longleftrightarrow> (\<exists>k < length js. js ! k = j \<and> job_id j = i \<and> (\<forall>m < k. job_id (js ! m) \<noteq> i))"
      (is "?L \<longleftrightarrow> ?R")
    proof
      assume ?L
      then obtain k where k: "k < length (a # js)" "(a # js) ! k = j" "job_id j = i"
        "\<forall>m < k. job_id ((a # js) ! m) \<noteq> i" by blast
      from k(2,3) False obtain k' where k': "k = Suc k'" by (cases k) auto
      have "\<forall>m < k'. job_id (js ! m) \<noteq> i"
      proof (intro allI impI)
        fix m assume "m < k'"
        then have "Suc m < k" using k' by simp
        with k(4) have "job_id ((a # js) ! Suc m) \<noteq> i" by blast
        then show "job_id (js ! m) \<noteq> i" by simp
      qed
      with k k' show ?R by auto
    next
      assume ?R
      then obtain k where k: "k < length js" "js ! k = j" "job_id j = i"
        "\<forall>m < k. job_id (js ! m) \<noteq> i" by blast
      have "\<forall>m < Suc k. job_id ((a # js) ! m) \<noteq> i"
      proof (intro allI impI)
        fix m assume "m < Suc k"
        then show "job_id ((a # js) ! m) \<noteq> i" using False k(4) by (cases m) auto
      qed
      with k show ?L by (intro exI [of _ "Suc k"]) simp
    qed
    with False Cons.IH show ?thesis by simp
  qed
qed

lemma now_iso_raises_iff:
  "(\<exists>e. now_iso h = Inl e) \<longleftrightarrow> ZoneInfo h (get_display_tz h) = None \<and> ZoneInfo h ''UTC'' = None"
  by (simp add: now_iso_def split: option.splits)

lemma create_job_raises_iff:
  "(\<exists>e. create_job h d man s = Inl e) \<longleftrightarrow>
     ZoneInfo h (get_display_tz h) = None \<and> ZoneInfo h ''UTC'' = None"
proof -
  have "(\<exists>e. create_job h d man s = Inl e) \<longleftrightarrow> (\<exists>e. now_iso h = Inl e)"
    by (cases "now_iso h") (simp_all add: create_job_def Let_def)
  then show ?thesis by (simp only: now_iso_raises_iff)
qed

lemma call_raises_iff:
  "(\<exists>e. fst (call c s) = Raised e) \<longleftrightarrow>
     (case c of
        CreateJob h d man \<Rightarrow> ZoneInfo h (get_display_tz h) = None \<and> ZoneInfo h ''UTC'' = None
      | _ \<Rightarrow> False)"
proof (cases c)
  case (CreateJob h d man)
  have "(\<exists>e. fst (call (CreateJob h d man) s) = Raised e) \<longleftrightarrow> (\<exists>e. create_job h d man s = Inl e)"
    by (cases "create_job h d man s") (auto split: prod.splits)
  with CreateJob show ?thesis by (simp add: create_job_raises_iff)
qed (simp_all split: prod.splits)

text \<open>
  C7, with the one other failure named. \<^verbatim>\<open>get_job\<close> returns the empty dictionary
  exactly when no job of the collection has the identifier, and otherwise the job at the
  first index whose identifier matches. A call of a method raises in one case only:
  \<^verbatim>\<open>create_job\<close> on a host where \<^verbatim>\<open>ZoneInfo\<close> finds neither the configured zone name nor
  UTC, the fallback lookup of \<^verbatim>\<open>now_iso\<close> being outside its \<^verbatim>\<open>try\<close>. On a host whose
  zone database has UTC no call raises.
\<close>

theorem get_job_first_match:
  "(get_job s i = None \<longleftrightarrow> (\<forall>j \<in> set (jobs s). job_id j \<noteq> i)) \<and>
   (\<forall>j. get_job s i = Some j \<longleftrightarrow>
      (\<exists>k < length (jobs s). jobs s ! k = j \<and> job_id j = i \<and> (\<forall>m < k. job_id (jobs s ! m) \<noteq> i))) \<and>
   ((\<exists>e. fst (call c s) = Raised e) \<longleftrightarrow>
      (case c of
         CreateJob h d man \<Rightarrow> ZoneInfo h (get_display_tz h) = None \<and> ZoneInfo h ''UTC'' = None
       | _ \<Rightarrow> False)) \<and>
   ((case c of CreateJob h d man \<Rightarrow> ZoneInfo h ''UTC'' \<noteq> None | _ \<Rightarrow> True) \<longrightarrow>
      (\<forall>e. fst (call c s) \<noteq> Raised e))"
proof -
  note r = call_raises_iff [of c s]
  have "(case c of CreateJob h d man \<Rightarrow> ZoneInfo h ''UTC'' \<noteq> None | _ \<Rightarrow> True) \<longrightarrow>
      (\<forall>e. fst (call c s) \<noteq> Raised e)"
    using r by (cases c) auto
  with r show ?thesis
    unfolding get_job_def using get_job_loop_None get_job_loop_Some by blast
qed

theorem get_job_first_match_witness:
  "get_job ex_sim (bqj 3) = Some (ex_job 3 COMPLETED ''c'') \<and> get_job ex_sim (bqj 7) = None \<and>
   fst (call (CreateJob ex_host ex_draws True) ex_sim) \<noteq> Raised ZoneInfoNotFoundError \<and>
   (\<exists>e. fst (call (CreateJob ex_no_db ex_draws True) ex_sim) = Raised e)"
proof -
  have a: "\<exists>k < length (jobs ex_sim). jobs ex_sim ! k = ex_job 3 COMPLETED ''c'' \<and>
      job_id (ex_job 3 COMPLETED ''c'') = bqj 3 \<and> (\<forall>m < k. job_id (jobs ex_sim ! m) \<noteq> bqj 3)"
    by (rule exI [of _ 2]) (simp add: ex_sim_def ex_job_def bqj_def str_int_def str_nat.simps digit_char_def less_Suc_eq numeral_2_eq_2)
  have b: "\<forall>j \<in> set (jobs ex_sim). job_id j \<noteq> bqj 7"
    by (simp add: ex_sim_def ex_job_def bqj_def str_int_def str_nat.simps digit_char_def)
  have c: "(case CreateJob ex_host ex_draws True of CreateJob h d man \<Rightarrow> ZoneInfo h ''UTC'' \<noteq> None | _ \<Rightarrow> True)"
    by (simp add: ex_host_def)
  have d: "(case CreateJob ex_no_db ex_draws True of
         CreateJob h d man \<Rightarrow> ZoneInfo h (get_display_tz h) = None \<and> ZoneInfo h ''UTC'' = None
       | _ \<Rightarrow> False)"
    by (simp add: ex_no_db_def)
  from get_job_first_match [of ex_sim "bqj 3" "CreateJob ex_host ex_draws True"]
       get_job_first_match [of ex_sim "bqj 7" "CreateJob ex_no_db ex_draws True"] a b c d
  show ?thesis by blast
qed

text \<open>On a host whose zone database finds no name, \<^verbatim>\<open>create_job\<close> raises: a failure of
  a method that is not the not-found result of \<^verbatim>\<open>get_job\<close>.\<close>

theorem get_job_first_match_counterexample:
  "fst (call (CreateJob ex_no_db ex_draws True) (init 200)) = Raised ZoneInfoNotFoundError"
  by (simp add: create_job_def now_iso_def ex_no_db_def)

subsection \<open>get_jobs\<close>

lemma slice_from_zero: "slice_from 0 xs = xs"
  by (simp add: slice_from_def)

lemma slice_from_pos: "0 < k \<Longrightarrow> slice_from k xs = drop (nat k) xs"
  by (cases "k \<le> int (length xs)") (simp_all add: slice_from_def Let_def min_def)

lemma slice_from_neg: "k < 0 \<Longrightarrow> slice_from k xs = drop (length xs - nat (- k)) xs"
proof -
  assume k: "k < 0"
  have "nat (max 0 (k + int (length xs))) = length xs - nat (- k)"
    using k by (simp add: max_def) linarith
  with k show ?thesis by (simp add: slice_from_def Let_def)
qed

lemma sort_key_of_le:
  "sort_key_of a \<le> sort_key_of b \<longleftrightarrow> priority_then_time a b"
  by (auto simp: sort_key_of_def priority_then_time_def less_eq_prod_def)

lemma sorted_jobs_ordered: "sorted_wrt priority_then_time (sort_key sort_key_of js)"
proof -
  have "sorted (map sort_key_of (sort_key sort_key_of js))" by (rule sorted_sort_key)
  then show ?thesis by (simp add: sorted_map sort_key_of_le)
qed

lemma status_order_values:
  "status_order RUNNING = 0 \<and> status_order QUEUED = 1 \<and> status_order FAILED = 2 \<and> status_order COMPLETED = 3"
  by (simp add: status_order_def)

text \<open>
  C3, for a positive limit. \<^verbatim>\<open>get_jobs\<close> returns the last \<open>limit\<close> entries (all of them when
  there are fewer) of the collection sorted ascending by status priority (RUNNING 0,
  QUEUED 1, FAILED 2, COMPLETED 3), ties broken by ascending \<^verbatim>\<open>created_at\<close> and, beyond
  that, kept in the order of the collection; the simulator is unchanged.
\<close>

theorem get_jobs_positive_limit:
  "0 < limit \<Longrightarrow>
     get_jobs s limit = last_entries limit (sort_key sort_key_of (jobs s)) \<and>
     length (get_jobs s limit) = min (nat limit) (length (jobs s)) \<and>
     mset (sort_key sort_key_of (jobs s)) = mset (jobs s) \<and>
     sorted_wrt priority_then_time (sort_key sort_key_of (jobs s)) \<and>
     (\<forall>k. filter (\<lambda>j. sort_key_of j = k) (sort_key sort_key_of (jobs s)) =
          filter (\<lambda>j. sort_key_of j = k) (jobs s)) \<and>
     status_order RUNNING = 0 \<and> status_order QUEUED = 1 \<and>
     status_order FAILED = 2 \<and> status_order COMPLETED = 3 \<and>
     snd (call (GetJobs limit) s) = s"
proof -
  assume l: "0 < limit"
  then have eq: "get_jobs s limit = last_entries limit (sort_key sort_key_of (jobs s))"
    by (simp add: get_jobs_def last_entries_def slice_from_neg)
  have len: "length (get_jobs s limit) = min (nat limit) (length (jobs s))"
    unfolding eq last_entries_def by simp
  from eq len show ?thesis
    by (simp add: sorted_jobs_ordered sort_key_stable status_order_def)
qed

theorem get_jobs_positive_limit_witness:
  "(0::int) < 2 \<and> get_jobs ex_sim 2 = [ex_job 1 COMPLETED ''a'', ex_job 3 COMPLETED ''c''] \<and>
   sort_key sort_key_of (jobs ex_sim) =
     [ex_job 4 RUNNING ''d'', ex_job 2 QUEUED ''b'', ex_job 1 COMPLETED ''a'', ex_job 3 COMPLETED ''c'']"
proof -
  have srt: "sort_key sort_key_of (jobs ex_sim) =
     [ex_job 4 RUNNING ''d'', ex_job 2 QUEUED ''b'', ex_job 1 COMPLETED ''a'', ex_job 3 COMPLETED ''c'']"
    by (simp add: ex_sim_def ex_job_def sort_key_of_def status_order_def less_eq_prod_def)
  have h: "(0::int) < 2" by simp
  from get_jobs_positive_limit [OF h, of ex_sim] srt show ?thesis
    by (simp add: last_entries_def)
qed

text \<open>With limit 0 the result is the whole sorted collection, not its last 0 entries.\<close>

theorem get_jobs_limit_zero_counterexample:
  "get_jobs ex_sim 0 \<noteq> last_entries 0 (sort_key sort_key_of (jobs ex_sim))"
  by (simp add: get_jobs_def last_entries_def slice_from_zero ex_sim_def)

text \<open>
  C4, for a positive limit. With a positive limit smaller than the size of the
  collection, \<^verbatim>\<open>get_jobs\<close> returns exactly \<open>limit\<close> entries, the tail of the collection
  sorted by status priority and then \<^verbatim>\<open>created_at\<close>.
\<close>

theorem get_jobs_exactly_limit:
  "0 < limit \<Longrightarrow> limit < int (length (jobs s)) \<Longrightarrow>
     int (length (get_jobs s limit)) = limit \<and>
     (\<exists>skipped. sort_key sort_key_of (jobs s) = skipped @ get_jobs s limit) \<and>
     get_jobs s limit = drop (length (jobs s) - nat limit) (sort_key sort_key_of (jobs s)) \<and>
     mset (sort_key sort_key_of (jobs s)) = mset (jobs s) \<and>
     sorted_wrt priority_then_time (sort_key sort_key_of (jobs s))"
proof -
  assume l: "0 < limit" "limit < int (length (jobs s))"
  let ?srt = "sort_key sort_key_of (jobs s)"
  from l have eq: "get_jobs s limit = drop (length (jobs s) - nat limit) ?srt"
    by (simp add: get_jobs_def slice_from_neg)
  have "?srt = take (length (jobs s) - nat limit) ?srt @ get_jobs s limit"
    unfolding eq by simp
  then have ex: "\<exists>skipped. ?srt = skipped @ get_jobs s limit" ..
  from l have len: "int (length (get_jobs s limit)) = limit"
    unfolding eq by simp
  from eq ex len show ?thesis
    by (simp add: sorted_jobs_ordered)
qed

theorem get_jobs_exactly_limit_witness:
  "(0::int) < 3 \<and> 3 < int (length (jobs ex_sim)) \<and> int (length (get_jobs ex_sim 3)) = 3"
proof -
  have h1: "(0::int) < 3" by simp
  have h2: "3 < int (length (jobs ex_sim))" by (simp add: ex_sim_def)
  from get_jobs_exactly_limit [OF h1 h2] h2 show ?thesis by simp
qed

text \<open>Limit 0 is smaller than the size of a collection of two jobs, and two entries are
  returned.\<close>

theorem get_jobs_exactly_limit_counterexample:
  "(0::int) < int (length (jobs (ex_sim\<lparr>jobs := [ex_job 1 QUEUED ''a'', ex_job 2 QUEUED ''b'']\<rparr>))) \<and>
   int (length (get_jobs (ex_sim\<lparr>jobs := [ex_job 1 QUEUED ''a'', ex_job 2 QUEUED ''b'']\<rparr>) 0)) \<noteq> 0"
  by (simp add: get_jobs_def slice_from_zero)

text \<open>
  C10. With limit 0 \<^verbatim>\<open>get_jobs\<close> returns the whole sorted collection; with a negative
  limit it returns the sorted collection without its first \<open>- limit\<close> entries. The route
  handler passes whatever integer the query parameter denotes, so such limits reach
  \<^verbatim>\<open>get_jobs\<close>.
\<close>

theorem get_jobs_nonpositive_limit:
  "get_jobs s 0 = sort_key sort_key_of (jobs s) \<and>
   (limit < 0 \<longrightarrow> get_jobs s limit = drop (nat (- limit)) (sort_key sort_key_of (jobs s))) \<and>
   (int_of a = Inr limit \<longrightarrow> get_jobs_api int_of (Some a) s = Inr (get_jobs s limit)) \<and>
   get_jobs_api int_of None s = Inr (get_jobs s 50)"
  by (simp add: get_jobs_def slice_from_zero slice_from_pos get_jobs_api_def)

theorem get_jobs_nonpositive_limit_witness:
  "get_jobs ex_sim (- 1) = [ex_job 2 QUEUED ''b'', ex_job 1 COMPLETED ''a'', ex_job 3 COMPLETED ''c''] \<and>
   get_jobs_api (\<lambda>a. if a = ''-1'' then Inr (- 1) else Inl ValueError) (Some ''-1'') ex_sim =
     Inr [ex_job 2 QUEUED ''b'', ex_job 1 COMPLETED ''a'', ex_job 3 COMPLETED ''c'']"
proof -
  have srt: "sort_key sort_key_of (jobs ex_sim) =
     [ex_job 4 RUNNING ''d'', ex_job 2 QUEUED ''b'', ex_job 1 COMPLETED ''a'', ex_job 3 COMPLETED ''c'']"
    by (simp add: ex_sim_def ex_job_def sort_key_of_def status_order_def less_eq_prod_def)
  from get_jobs_nonpositive_limit
     [of ex_sim "- 1" "\<lambda>a. if a = ''-1'' then Inr (- 1) else Inl ValueError" "''-1''"] srt
  show ?thesis by simp
qed

subsection \<open>now_iso\<close>

text \<open>
  C9, with the proviso on UTC. \<^verbatim>\<open>now_iso\<close> stamps the time in the configured zone
  when \<^verbatim>\<open>ZoneInfo\<close> knows its name, whatever else the database holds; when it does not,
  \<^verbatim>\<open>now_iso\<close> stamps the time in UTC if \<^verbatim>\<open>ZoneInfo\<close> knows UTC, and raises if it does not.
  The configured name is the application setting, else the environment variable, else
  UTC (an unset or empty value counts as missing). \<^verbatim>\<open>create_job\<close> succeeds exactly when
  \<^verbatim>\<open>now_iso\<close> does, so on a host whose zone database has UTC it succeeds whatever the
  configuration is.
\<close>

theorem now_iso_falls_back_to_UTC:
  "(\<forall>tz. ZoneInfo h (get_display_tz h) = Some tz \<longrightarrow> now_iso h = Inr (now_isoformat h tz)) \<and>
   (\<forall>utc. ZoneInfo h (get_display_tz h) = None \<and> ZoneInfo h ''UTC'' = Some utc \<longrightarrow>
      now_iso h = Inr (now_isoformat h utc)) \<and>
   (ZoneInfo h (get_display_tz h) = None \<and> ZoneInfo h ''UTC'' = None \<longrightarrow>
      now_iso h = Inl ZoneInfoNotFoundError \<and> create_job h d man s = Inl ZoneInfoNotFoundError) \<and>
   (\<forall>c. config_DISPLAY_TZ h = Some c \<and> c \<noteq> [] \<longrightarrow> get_display_tz h = c) \<and>
   (\<forall>e. config_DISPLAY_TZ h \<in> {None, Some []} \<and> environ_DISPLAY_TZ h = Some e \<and> e \<noteq> [] \<longrightarrow>
      get_display_tz h = e) \<and>
   (config_DISPLAY_TZ h \<in> {None, Some []} \<and> environ_DISPLAY_TZ h \<in> {None, Some []} \<longrightarrow>
      get_display_tz h = ''UTC'') \<and>
   ((\<exists>j s'. create_job h d man s = Inr (j, s') \<and> now_iso h = Inr (created_at j)) \<longleftrightarrow>
      ZoneInfo h (get_display_tz h) \<noteq> None \<or> ZoneInfo h ''UTC'' \<noteq> None) \<and>
   (ZoneInfo h ''UTC'' \<noteq> None \<longrightarrow>
      (\<exists>ts. now_iso h = Inr ts) \<and> (\<exists>j s'. create_job h d man s = Inr (j, s')))"
proof -
  have 1: "\<forall>tz. ZoneInfo h (get_display_tz h) = Some tz \<longrightarrow> now_iso h = Inr (now_isoformat h tz)"
    by (simp add: now_iso_def)
  have 2: "\<forall>utc. ZoneInfo h (get_display_tz h) = None \<and> ZoneInfo h ''UTC'' = Some utc \<longrightarrow>
      now_iso h = Inr (now_isoformat h utc)"
    by (simp add: now_iso_def)
  have 3: "ZoneInfo h (get_display_tz h) = None \<and> ZoneInfo h ''UTC'' = None \<longrightarrow>
      now_iso h = Inl ZoneInfoNotFoundError \<and> create_job h d man s = Inl ZoneInfoNotFoundError"
    by (simp add: now_iso_def create_job_def)
  have tz: "\<forall>c. config_DISPLAY_TZ h = Some c \<and> c \<noteq> [] \<longrightarrow> get_display_tz h = c"
    by (simp add: get_display_tz_def py_or_def)
  have tz2: "\<forall>e. config_DISPLAY_TZ h \<in> {None, Some []} \<and> environ_DISPLAY_TZ h = Some e \<and> e \<noteq> [] \<longrightarrow>
      get_display_tz h = e"
    by (auto simp: get_display_tz_def py_or_def)
  have tz3: "config_DISPLAY_TZ h \<in> {None, Some []} \<and> environ_DISPLAY_TZ h \<in> {None, Some []} \<longrightarrow>
      get_display_tz h = ''UTC''"
    by (auto simp: get_display_tz_def py_or_def)
  have ok: "(\<exists>j s'. create_job h d man s = Inr (j, s') \<and> now_iso h = Inr (created_at j))"
    if "ZoneInfo h (get_display_tz h) \<noteq> None \<or> ZoneInfo h ''UTC'' \<noteq> None"
  proof -
    from that now_iso_raises_iff [of h] obtain ts where "now_iso h = Inr ts"
      by (cases "now_iso h") auto
    then show ?thesis by (simp add: create_job_def Let_def)
  qed
  have 4: "(\<exists>j s'. create_job h d man s = Inr (j, s') \<and> now_iso h = Inr (created_at j)) \<longleftrightarrow>
      ZoneInfo h (get_display_tz h) \<noteq> None \<or> ZoneInfo h ''UTC'' \<noteq> None"
  proof
    assume "\<exists>j s'. create_job h d man s = Inr (j, s') \<and> now_iso h = Inr (created_at j)"
    then have "\<not> (\<exists>e. now_iso h = Inl e)" by auto
    with now_iso_raises_iff [of h]
    show "ZoneInfo h (get_display_tz h) \<noteq> None \<or> ZoneInfo h ''UTC'' \<noteq> None"
      by simp
  next
    assume "ZoneInfo h (get_display_tz h) \<noteq> None \<or> ZoneInfo h ''UTC'' \<noteq> None"
    then show "\<exists>j s'. create_job h d man s = Inr (j, s') \<and> now_iso h = Inr (created_at j)"
      by (rule ok)
  qed
  have 5: "ZoneInfo h ''UTC'' \<noteq> None \<longrightarrow>
      (\<exists>ts. now_iso h = Inr ts) \<and> (\<exists>j s'. create_job h d man s = Inr (j, s'))"
    using ok by blast
  from 1 2 3 tz tz2 tz3 4 5 show ?thesis by blast
qed

theorem now_iso_falls_back_to_UTC_witness:
  "ZoneInfo ex_host ''UTC'' = Some 0 \<and> ZoneInfo ex_host (get_display_tz ex_host) = None \<and>
   now_iso ex_host = Inr ''2025-01-01T00:00:00+00:00'' \<and>
   now_iso (ex_host\<lparr>config_DISPLAY_TZ := Some ''Asia/Kolkata''\<rparr>) = Inr ''2025-01-01T05:30:00+05:30'' \<and>
   now_iso ex_no_db = Inl ZoneInfoNotFoundError \<and>
   (\<exists>j s'. create_job ex_host ex_draws False ex_sim = Inr (j, s'))"
proof -
  let ?k = "ex_host\<lparr>config_DISPLAY_TZ := Some ''Asia/Kolkata''\<rparr>"
  have u: "ZoneInfo ex_host ''UTC'' = Some 0" by (simp add: ex_host_def)
  have n: "ZoneInfo ex_host (get_display_tz ex_host) = None"
    by (simp add: ex_host_def get_display_tz_def py_or_def)
  have k: "ZoneInfo ?k (get_display_tz ?k) = Some 330"
    by (simp add: ex_host_def get_display_tz_def py_or_def)
  have z: "ZoneInfo ex_no_db (get_display_tz ex_no_db) = None \<and> ZoneInfo ex_no_db ''UTC'' = None"
    by (simp add: ex_no_db_def)
  have f0: "now_isoformat ex_host 0 = ''2025-01-01T00:00:00+00:00''" by (simp add: ex_host_def)
  have f1: "now_isoformat ?k 330 = ''2025-01-01T05:30:00+05:30''" by (simp add: ex_host_def)
  from now_iso_falls_back_to_UTC [of ex_host ex_draws False ex_sim] u n
  have a: "now_iso ex_host = Inr (now_isoformat ex_host 0)"
    and c: "\<exists>j s'. create_job ex_host ex_draws False ex_sim = Inr (j, s')" by blast+
  from now_iso_falls_back_to_UTC [of ?k ex_draws False ex_sim] k
  have b: "now_iso ?k = Inr (now_isoformat ?k 330)" by blast
  from now_iso_falls_back_to_UTC [of ex_no_db ex_draws False ex_sim] z
  have e: "now_iso ex_no_db = Inl ZoneInfoNotFoundError" by blast
  from u n a b c e show ?thesis by (simp only: f0 f1)
qed

text \<open>On a host whose zone database finds no name, the configured name is invalid, the
  fallback raises and \<^verbatim>\<open>create_job\<close> fails.\<close>

theorem now_iso_falls_back_to_UTC_counterexample:
  "ZoneInfo ex_no_db (get_display_tz ex_no_db) = None \<and>
   now_iso ex_no_db = Inl ZoneInfoNotFoundError \<and>
   create_job ex_no_db ex_draws False (init 200) = Inl ZoneInfoNotFoundError"
  by (simp add: create_job_def now_iso_def ex_no_db_def)

subsection \<open>Identifiers are injective\<close>

lemma digit_char_inj: "a < 10 \<Longrightarrow> b < 10 \<Longrightarrow> digit_char a = digit_char b \<Longrightarrow> a = b"
proof -
  assume a: "a < 10" and b: "b < 10" and e: "digit_char a = digit_char b"
  from e have "(of_char (char_of (48 + a) :: char) :: nat) = of_char (char_of (48 + b) :: char)"
    by (simp add: digit_char_def)
  with a b show ?thesis by (simp add: of_char_of)
qed

lemma digit_char_not_minus: "d < 10 \<Longrightarrow> digit_char d \<noteq> CHR ''-''"
proof
  assume d: "d < 10" and e: "digit_char d = CHR ''-''"
  from e have "(of_char (char_of (48 + d) :: char) :: nat) = of_char (CHR ''-'')"
    by (simp add: digit_char_def)
  with d show False by (simp add: of_char_of)
qed

lemma str_nat_not_Nil: "str_nat n \<noteq> []"
  by (subst str_nat.simps) simp

lemma length_str_nat_small: "n < 10 \<Longrightarrow> length (str_nat n) = 1"
  by (subst str_nat.simps) simp

lemma length_str_nat_big: "\<not> n < 10 \<Longrightarrow> 2 \<le> length (str_nat n)"
proof -
  assume "\<not> n < 10"
  then have "str_nat n = str_nat (n div 10) @ [digit_char (n mod 10)]"
    by (subst str_nat.simps) simp
  moreover have "1 \<le> length (str_nat (n div 10))"
    using str_nat_not_Nil [of "n div 10"] by (cases "str_nat (n div 10)") auto
  ultimately show ?thesis by simp
qed

lemma str_nat_inj: "str_nat n = str_nat m \<Longrightarrow> n = m"
proof (induction n arbitrary: m rule: str_nat.induct)
  case (1 n)
  show ?case
  proof (cases "n < 10")
    case True
    have m: "m < 10"
    proof (rule ccontr)
      assume "\<not> m < 10"
      from length_str_nat_big [OF this] length_str_nat_small [OF True] "1.prems"
      show False by simp
    qed
    from True m "1.prems" have "digit_char n = digit_char m"
      by (subst (asm) str_nat.simps, subst (asm) (2) str_nat.simps) simp
    with True m show ?thesis by (rule digit_char_inj)
  next
    case False
    have m: "\<not> m < 10"
    proof
      assume "m < 10"
      from length_str_nat_small [OF this] length_str_nat_big [OF False] "1.prems"
      show False by simp
    qed
    from False m "1.prems"
    have "str_nat (n div 10) @ [digit_char (n mod 10)] = str_nat (m div 10) @ [digit_char (m mod 10)]"
      by (subst (asm) str_nat.simps, subst (asm) (2) str_nat.simps) simp
    then have a: "str_nat (n div 10) = str_nat (m div 10)"
      and b: "digit_char (n mod 10) = digit_char (m mod 10)" by simp_all
    from "1.IH" [OF False a] have d: "n div 10 = m div 10" .
    from b have e: "n mod 10 = m mod 10" by (intro digit_char_inj) simp_all
    from d e show ?thesis by (metis div_mult_mod_eq)
  qed
qed

lemma hd_str_nat_not_minus: "hd (str_nat n) \<noteq> CHR ''-''"
proof (induction n rule: str_nat.induct)
  case (1 n)
  show ?case
  proof (cases "n < 10")
    case True
    then show ?thesis by (subst str_nat.simps) (simp add: digit_char_not_minus)
  next
    case False
    with "1.IH" str_nat_not_Nil [of "n div 10"] show ?thesis
      by (subst str_nat.simps) simp
  qed
qed

lemma str_int_inj: "str_int a = str_int b \<Longrightarrow> a = b"
proof -
  assume e: "str_int a = str_int b"
  have ne: "\<And>n m. CHR ''-'' # str_nat n \<noteq> str_nat m"
  proof
    fix n m assume "CHR ''-'' # str_nat n = str_nat m"
    then have "hd (str_nat m) = CHR ''-''" by (metis list.sel(1))
    with hd_str_nat_not_minus show False by blast
  qed
  show ?thesis
  proof (cases "a < 0"; cases "b < 0")
    assume "a < 0" "b < 0"
    with e have "nat (- a) = nat (- b)" by (simp add: str_int_def str_nat_inj)
    with \<open>a < 0\<close> \<open>b < 0\<close> show ?thesis by simp
  next
    assume "a < 0" "\<not> b < 0"
    with e ne show ?thesis by (simp add: str_int_def)
  next
    assume "\<not> a < 0" "b < 0"
    with e ne [of "nat (- b)" "nat a"] show ?thesis by (simp add: str_int_def)
  next
    assume "\<not> a < 0" "\<not> b < 0"
    with e have "nat a = nat b" by (simp add: str_int_def str_nat_inj)
    with \<open>\<not> a < 0\<close> \<open>\<not> b < 0\<close> show ?thesis by simp
  qed
qed

lemma bqj_eq_iff: "bqj a = bqj b \<longleftrightarrow> a = b"
  by (auto simp: bqj_def dest: str_int_inj)

subsection \<open>One pass of update_jobs\<close>

lemma update_job_step:
  "update_job r j = (j', r') \<Longrightarrow>
     unchanged_fields j j' \<and> advance (status j) (status j') \<and>
     (status j = COMPLETED \<or> status j = FAILED \<longrightarrow> j' = j)"
  by (cases "status j")
     (auto simp: update_job_def random_random_def unchanged_fields_def Let_def split: if_splits)

lemma update_loop_step:
  "list_all2 (\<lambda>j j'. unchanged_fields j j' \<and> advance (status j) (status j') \<and>
       (status j = COMPLETED \<or> status j = FAILED \<longrightarrow> j' = j)) js (fst (update_loop r js))"
proof (induction js arbitrary: r)
  case Nil
  show ?case by simp
next
  case (Cons j js)
  obtain j' r1 where a: "update_job r j = (j', r1)" by (cases "update_job r j")
  obtain js' r2 where b: "update_loop r1 js = (js', r2)" by (cases "update_loop r1 js")
  from Cons.IH [of r1] b update_job_step [OF a] a show ?case by simp
qed

lemma update_jobs_frame: "fst (update_jobs r s) = s\<lparr>jobs := fst (update_loop r (jobs s))\<rparr>"
  by (simp add: update_jobs_def split: prod.splits)

lemma list_all2_same_ids:
  "list_all2 (\<lambda>j j'. job_id j' = job_id j) xs ys \<Longrightarrow> map job_id ys = map job_id xs"
  by (induction xs ys rule: list_all2_induct) simp_all

lemma update_loop_ids: "map job_id (fst (update_loop r js)) = map job_id js"
proof -
  from update_loop_step [of js r]
  have "list_all2 (\<lambda>j j'. job_id j' = job_id j) js (fst (update_loop r js))"
    by (rule list_all2_mono) (simp add: unchanged_fields_def)
  then show ?thesis by (rule list_all2_same_ids)
qed

lemma advance_refl: "advance a a"
  by (cases a) simp_all

subsection \<open>create_job and the bound on the collection\<close>

lemma create_job_Inr:
  assumes "create_job h d man s = Inr (j, s')"
  shows "job_id j = bqj (job_counter s)" and "job_type j = choice d" and "status j = QUEUED"
    and "now_iso h = Inr (created_at j)" and "estimated_runtime j = randint d"
    and "success_probability j = uniform d" and "manual j = man"
    and "job_counter s' = job_counter s + 1" and "max_jobs s' = max_jobs s"
    and "running s' = running s"
    and "jobs s' = (if int (length (jobs s)) + 1 > max_jobs s then tl (jobs s @ [j]) else jobs s @ [j])"
proof -
  obtain ts where ts: "now_iso h = Inr ts"
    using assms by (cases "now_iso h") (simp_all add: create_job_def)
  let ?j = "\<lparr>job_id = bqj (job_counter s), job_type = choice d, status = QUEUED,
                     created_at = ts, estimated_runtime = randint d,
                     success_probability = uniform d, manual = man\<rparr>"
  let ?s3 = "(if int (length (jobs s)) + 1 > max_jobs s
       then s\<lparr>job_counter := job_counter s + 1, jobs := tl (jobs s @ [?j])\<rparr>
       else s\<lparr>job_counter := job_counter s + 1, jobs := jobs s @ [?j]\<rparr>)"
  have "create_job h d man s = Inr (?j, ?s3)"
    by (simp add: create_job_def Let_def ts)
  with assms have j: "j = ?j" and s': "s' = ?s3"
    by simp_all
  show "job_id j = bqj (job_counter s)" "job_type j = choice d" "status j = QUEUED"
    "estimated_runtime j = randint d" "success_probability j = uniform d" "manual j = man"
    by (simp_all add: j)
  show "now_iso h = Inr (created_at j)" by (simp add: j ts)
  show "job_counter s' = job_counter s + 1" "max_jobs s' = max_jobs s" "running s' = running s"
    by (simp_all add: s')
  show "jobs s' = (if int (length (jobs s)) + 1 > max_jobs s then tl (jobs s @ [j]) else jobs s @ [j])"
    by (simp add: s' j)
qed

lemma call_CreateJob_cases:
  obtains (raised) e where "create_job h d man s = Inl e" "call (CreateJob h d man) s = (Raised e, s)"
  | (created) j s' where "create_job h d man s = Inr (j, s')" "call (CreateJob h d man) s = (Created j, s')"
proof (cases "create_job h d man s")
  case (Inl e)
  then show ?thesis by (intro raised [of e]) simp_all
next
  case (Inr p)
  obtain j s' where "p = (j, s')" by (cases p)
  with Inr show ?thesis by (intro created [of j s']) simp_all
qed

lemma call_max_jobs: "max_jobs (snd (call c s)) = max_jobs s"
proof (cases c)
  case (CreateJob h d man)
  show ?thesis
    by (cases rule: call_CreateJob_cases [of h d man s])
       (simp_all add: CreateJob create_job_Inr(9))
qed (simp_all add: update_jobs_frame clear_completed_def Let_def)

lemma call_length_bound:
  assumes "0 \<le> max_jobs s" "int (length (jobs s)) \<le> max_jobs s"
  shows "int (length (jobs (snd (call c s)))) \<le> max_jobs s"
proof (cases c)
  case (CreateJob h d man)
  show ?thesis
  proof (cases rule: call_CreateJob_cases [of h d man s])
    case (raised e)
    with CreateJob assms show ?thesis by simp
  next
    case (created j s')
    from create_job_Inr(11) [OF created(1)] assms
    have "int (length (jobs s')) \<le> max_jobs s" by (simp split: if_splits)
    with CreateJob created show ?thesis by simp
  qed
next
  case (UpdateJobs r)
  have "length (map job_id (fst (update_loop r (jobs s)))) = length (map job_id (jobs s))"
    by (simp only: update_loop_ids)
  then have "length (fst (update_loop r (jobs s))) = length (jobs s)" by simp
  with UpdateJobs assms show ?thesis by (simp add: update_jobs_frame)
next
  case ClearCompleted
  have "int (length (filter (\<lambda>j. status j \<noteq> COMPLETED) (jobs s))) \<le> int (length (jobs s))"
    by simp
  also note assms(2)
  finally show ?thesis by (simp add: ClearCompleted clear_completed_def Let_def)
qed (use assms in simp_all)

lemma exec_length_bound:
  "0 \<le> max_jobs s \<Longrightarrow> int (length (jobs s)) \<le> max_jobs s \<Longrightarrow>
     int (length (jobs (exec cs s))) \<le> max_jobs s"
proof (induction cs arbitrary: s)
  case Nil
  then show ?case by simp
next
  case (Cons c cs)
  from call_length_bound [OF Cons.prems]
  have "int (length (jobs (snd (call c s)))) \<le> max_jobs (snd (call c s))"
    by (simp add: call_max_jobs)
  with Cons.IH [of "snd (call c s)"] Cons.prems(1) show ?case
    by (simp add: call_max_jobs)
qed

text \<open>
  C2, for a bound that is not negative. Started with \<open>max_jobs = m\<close> and \<open>0 \<le> m\<close>, the
  collection holds at most \<open>m\<close> jobs after every sequence of calls. \<^verbatim>\<open>create_job\<close>
  appends the new job and, when the list is then longer than \<^verbatim>\<open>max_jobs\<close>, removes the
  entry at index 0 and nothing else. Four creations with \<open>max_jobs = 3\<close> leave the second,
  third and fourth job, in that order.
\<close>

theorem collection_bounded:
  "(0 \<le> m \<longrightarrow> int (length (jobs (exec cs (init m)))) \<le> m) \<and>
   (create_job h d man s = Inr (j, s') \<longrightarrow>
      (int (length (jobs s)) + 1 \<le> max_jobs s \<longrightarrow> jobs s' = jobs s @ [j]) \<and>
      (int (length (jobs s)) + 1 > max_jobs s \<longrightarrow> jobs s @ [j] = (jobs s @ [j]) ! 0 # jobs s')) \<and>
   (create_job h1 d1 man1 (init 3) = Inr (j1, s1) \<and> create_job h2 d2 man2 s1 = Inr (j2, s2) \<and>
    create_job h3 d3 man3 s2 = Inr (j3, s3) \<and> create_job h4 d4 man4 s3 = Inr (j4, s4) \<longrightarrow>
      jobs s4 = [j2, j3, j4] \<and> map job_id (jobs s4) = [bqj 2, bqj 3, bqj 4])"
proof (intro conjI impI)
  assume "0 \<le> m"
  with exec_length_bound [of "init m" cs] show "int (length (jobs (exec cs (init m)))) \<le> m"
    by (simp add: init_def)
next
  assume r: "create_job h d man s = Inr (j, s')" and "int (length (jobs s)) + 1 \<le> max_jobs s"
  with create_job_Inr(11) [OF r] show "jobs s' = jobs s @ [j]" by simp
next
  assume r: "create_job h d man s = Inr (j, s')" and b: "int (length (jobs s)) + 1 > max_jobs s"
  from create_job_Inr(11) [OF r] b have "jobs s' = tl (jobs s @ [j])" by simp
  then show "jobs s @ [j] = (jobs s @ [j]) ! 0 # jobs s'"
    by (cases "jobs s") simp_all
next
  assume a: "create_job h1 d1 man1 (init 3) = Inr (j1, s1) \<and> create_job h2 d2 man2 s1 = Inr (j2, s2) \<and>
    create_job h3 d3 man3 s2 = Inr (j3, s3) \<and> create_job h4 d4 man4 s3 = Inr (j4, s4)"
  note c1 = create_job_Inr [of h1 d1 man1 "init 3" j1 s1]
    and c2 = create_job_Inr [of h2 d2 man2 s1 j2 s2]
    and c3 = create_job_Inr [of h3 d3 man3 s2 j3 s3]
    and c4 = create_job_Inr [of h4 d4 man4 s3 j4 s4]
  from a c1(8,9,11) have 1: "jobs s1 = [j1]" "job_counter s1 = 2" "max_jobs s1 = 3"
    by (simp_all add: init_def)
  from a c2(1,8,9,11) 1 have 2: "jobs s2 = [j1, j2]" "job_counter s2 = 3" "max_jobs s2 = 3"
    "job_id j2 = bqj 2" by simp_all
  from a c3(1,8,9,11) 2 have 3: "jobs s3 = [j1, j2, j3]" "job_counter s3 = 4" "max_jobs s3 = 3"
    "job_id j3 = bqj 3" by simp_all
  from a c4(1,11) 3 have 4: "jobs s4 = [j2, j3, j4]" "job_id j4 = bqj 4" by simp_all
  from 2 3 4 show "jobs s4 = [j2, j3, j4]" "map job_id (jobs s4) = [bqj 2, bqj 3, bqj 4]"
    by simp_all
qed

lemma create_job_ex_state:
  "create_job ex_host ex_draws False (ex_state ns c m) =
     Inr (ex_new c, ex_state (if int (length ns) + 1 > m then tl (ns @ [c]) else ns @ [c]) (c + 1) m)"
  by (simp add: create_job_def now_iso_def get_display_tz_def py_or_def ex_host_def ex_draws_def
        ex_state_def ex_new_def ex_job_def Let_def map_tl)

lemma init_ex_state: "init m = ex_state [] 1 m"
  by (simp add: init_def ex_state_def)

theorem collection_bounded_witness:
  "(0::int) \<le> 1 \<and>
   int (length (jobs (exec [CreateJob ex_host ex_draws False, CreateJob ex_host ex_draws False] (init 1)))) \<le> 1 \<and>
   create_job ex_host ex_draws False (ex_state [1, 2] 3 2) = Inr (ex_new 3, ex_state [2, 3] 4 2) \<and>
   [ex_new 1, ex_new 2, ex_new 3] = ex_new 1 # jobs (ex_state [2, 3] 4 2) \<and>
   create_job ex_host ex_draws False (init 3) = Inr (ex_new 1, ex_state [1] 2 3) \<and>
   create_job ex_host ex_draws False (ex_state [1] 2 3) = Inr (ex_new 2, ex_state [1, 2] 3 3) \<and>
   create_job ex_host ex_draws False (ex_state [1, 2] 3 3) = Inr (ex_new 3, ex_state [1, 2, 3] 4 3) \<and>
   create_job ex_host ex_draws False (ex_state [1, 2, 3] 4 3) = Inr (ex_new 4, ex_state [2, 3, 4] 5 3) \<and>
   jobs (ex_state [2, 3, 4] 5 3) = [ex_new 2, ex_new 3, ex_new 4]"
proof -
  have h0: "(0::int) \<le> 1" by simp
  have c: "create_job ex_host ex_draws False (ex_state [1, 2] 3 2) = Inr (ex_new 3, ex_state [2, 3] 4 2)"
    by (simp add: create_job_ex_state)
  have over: "int (length (jobs (ex_state [1, 2] 3 2))) + 1 > max_jobs (ex_state [1, 2] 3 2)"
    by (simp add: ex_state_def)
  have c1: "create_job ex_host ex_draws False (init 3) = Inr (ex_new 1, ex_state [1] 2 3)"
    by (simp add: init_ex_state create_job_ex_state)
  have c2: "create_job ex_host ex_draws False (ex_state [1] 2 3) = Inr (ex_new 2, ex_state [1, 2] 3 3)"
    by (simp add: create_job_ex_state)
  have c3: "create_job ex_host ex_draws False (ex_state [1, 2] 3 3) = Inr (ex_new 3, ex_state [1, 2, 3] 4 3)"
    by (simp add: create_job_ex_state)
  have c4: "create_job ex_host ex_draws False (ex_state [1, 2, 3] 4 3) = Inr (ex_new 4, ex_state [2, 3, 4] 5 3)"
    by (simp add: create_job_ex_state)
  note t = collection_bounded [of 1 "[CreateJob ex_host ex_draws False, CreateJob ex_host ex_draws False]"
      ex_host ex_draws False "ex_state [1, 2] 3 2" "ex_new 3" "ex_state [2, 3] 4 2"
      ex_host ex_draws False "ex_new 1" "ex_state [1] 2 3"
      ex_host ex_draws False "ex_new 2" "ex_state [1, 2] 3 3"
      ex_host ex_draws False "ex_new 3" "ex_state [1, 2, 3] 4 3"
      ex_host ex_draws False "ex_new 4" "ex_state [2, 3, 4] 5 3"]
  from t h0 have a: "int (length (jobs (exec [CreateJob ex_host ex_draws False, CreateJob ex_host ex_draws False] (init 1)))) \<le> 1"
    by blast
  from t c over have b: "jobs (ex_state [1, 2] 3 2) @ [ex_new 3] =
      (jobs (ex_state [1, 2] 3 2) @ [ex_new 3]) ! 0 # jobs (ex_state [2, 3] 4 2)"
    by blast
  from t c1 c2 c3 c4 have d: "jobs (ex_state [2, 3, 4] 5 3) = [ex_new 2, ex_new 3, ex_new 4]"
    by blast
  from b have b': "[ex_new 1, ex_new 2, ex_new 3] = ex_new 1 # jobs (ex_state [2, 3] 4 2)"
    by (simp add: ex_state_def)
  from h0 a c b' c1 c2 c3 c4 d show ?thesis by blast
qed

text \<open>With \<open>max_jobs = - 1\<close> one \<^verbatim>\<open>create_job\<close> leaves the empty collection, whose size
  0 exceeds the bound.\<close>

theorem collection_bounded_counterexample:
  "max_jobs (exec [CreateJob ex_host ex_draws False] (init (- 1))) <
     int (length (jobs (exec [CreateJob ex_host ex_draws False] (init (- 1)))))"
  by (simp add: init_ex_state create_job_ex_state) (simp add: ex_state_def)

subsection \<open>What a call may change\<close>

lemma unchanged_fields_refl: "unchanged_fields j j"
  by (simp add: unchanged_fields_def)

lemma unchanged_fields_trans: "unchanged_fields a b \<Longrightarrow> unchanged_fields b c \<Longrightarrow> unchanged_fields a c"
  by (simp add: unchanged_fields_def)

lemma update_loop_unchanged: "list_all2 unchanged_fields js (fst (update_loop r js))"
  using update_loop_step [of js r] by (rule list_all2_mono) simp

lemma list_all2_set_right: "list_all2 P xs ys \<Longrightarrow> y \<in> set ys \<Longrightarrow> \<exists>x \<in> set xs. P x y"
  by (induction xs ys rule: list_all2_induct) auto

lemma set_tl_subset: "set (tl xs) \<subseteq> set xs"
  by (cases xs) auto

lemma created_jobs_run_Cons:
  "created_jobs (run (c # cs) s) =
     (case fst (call c s) of Created j \<Rightarrow> [j] | _ \<Rightarrow> []) @ created_jobs (run cs (snd (call c s)))"
  by (cases "call c s"; cases "fst (call c s)") auto

lemma call_frame:
  assumes "j' \<in> set (jobs (snd (call c s)))"
  shows "(\<exists>j \<in> set (jobs s). unchanged_fields j j') \<or> fst (call c s) = Created j'"
proof (cases c)
  case (CreateJob h d man)
  show ?thesis
  proof (cases rule: call_CreateJob_cases [of h d man s])
    case (raised e)
    with CreateJob assms unchanged_fields_refl show ?thesis by auto
  next
    case (created j s')
    from create_job_Inr(11) [OF created(1)] set_tl_subset [of "jobs s @ [j]"]
    have "set (jobs s') \<subseteq> set (jobs s) \<union> {j}" by (auto split: if_splits)
    with assms CreateJob created have "j' \<in> set (jobs s) \<or> j' = j" by auto
    with CreateJob created unchanged_fields_refl show ?thesis by auto
  qed
next
  case (UpdateJobs r)
  with assms have "j' \<in> set (fst (update_loop r (jobs s)))" by (simp add: update_jobs_frame)
  from list_all2_set_right [OF update_loop_unchanged this] show ?thesis by blast
next
  case (GetJobs limit)
  with assms unchanged_fields_refl show ?thesis by auto
next
  case (GetJob i)
  with assms unchanged_fields_refl show ?thesis by auto
next
  case ClearCompleted
  with assms have "j' \<in> set (jobs s)" by (simp add: clear_completed_def Let_def)
  with unchanged_fields_refl show ?thesis by blast
qed

lemma exec_frame:
  "j' \<in> set (jobs (exec cs s)) \<Longrightarrow>
     \<exists>j \<in> set (jobs s) \<union> set (created_jobs (run cs s)). unchanged_fields j j'"
proof (induction cs arbitrary: s)
  case Nil
  with unchanged_fields_refl show ?case by auto
next
  case (Cons c cs)
  let ?s1 = "snd (call c s)"
  from Cons.prems have "j' \<in> set (jobs (exec cs ?s1))" by simp
  from Cons.IH [OF this] obtain j1 where j1: "j1 \<in> set (jobs ?s1) \<union> set (created_jobs (run cs ?s1))"
    and u1: "unchanged_fields j1 j'" by blast
  show ?case
  proof (cases "j1 \<in> set (jobs ?s1)")
    case True
    from call_frame [OF True] show ?thesis
    proof
      assume "\<exists>j \<in> set (jobs s). unchanged_fields j j1"
      then obtain j where "j \<in> set (jobs s)" "unchanged_fields j j1" by blast
      with u1 unchanged_fields_trans show ?thesis by blast
    next
      assume "fst (call c s) = Created j1"
      then have "j1 \<in> set (created_jobs (run (c # cs) s))"
        by (subst created_jobs_run_Cons) simp
      with u1 show ?thesis by blast
    qed
  next
    case False
    with j1 have "j1 \<in> set (created_jobs (run (c # cs) s))"
      by (subst created_jobs_run_Cons) simp
    with u1 show ?thesis by blast
  qed
qed

lemma call_keeps_entries:
  assumes "\<forall>h d man. c \<noteq> CreateJob h d man" "c \<noteq> ClearCompleted"
  shows "list_all2 unchanged_fields (jobs s) (jobs (snd (call c s)))"
proof (cases c)
  case (UpdateJobs r)
  then show ?thesis by (simp add: update_jobs_frame update_loop_unchanged)
next
  case (GetJobs limit)
  then show ?thesis by (simp add: list_all2_refl unchanged_fields_refl)
next
  case (GetJob i)
  then show ?thesis by (simp add: list_all2_refl unchanged_fields_refl)
qed (use assms in simp_all)

text \<open>
  C8. \<^verbatim>\<open>get_jobs\<close> and \<^verbatim>\<open>get_job\<close> leave the simulator as it is. \<^verbatim>\<open>update_jobs\<close> keeps
  the length of the collection and, position by position, every field of a job but its
  status, and touches no other attribute. After any sequence of calls on a new simulator
  every job of the collection has the fields, status apart, that some call of
  \<^verbatim>\<open>create_job\<close> gave it. A call that is neither \<^verbatim>\<open>create_job\<close> nor \<^verbatim>\<open>clear_completed\<close>
  removes no entry; \<^verbatim>\<open>create_job\<close> removes at most the head of the list, and
  \<^verbatim>\<open>clear_completed\<close> the COMPLETED jobs.
\<close>

theorem only_status_changes:
  "snd (call (GetJobs limit) s) = s \<and> snd (call (GetJob i) s) = s \<and>
   (update_jobs r s = (s', r') \<longrightarrow>
      list_all2 unchanged_fields (jobs s) (jobs s') \<and> length (jobs s') = length (jobs s) \<and>
      job_counter s' = job_counter s \<and> max_jobs s' = max_jobs s \<and> running s' = running s) \<and>
   (\<forall>j' \<in> set (jobs (exec cs (init m))).
      \<exists>j \<in> set (created_jobs (run cs (init m))). unchanged_fields j j') \<and>
   ((\<forall>h d man. c \<noteq> CreateJob h d man) \<and> c \<noteq> ClearCompleted \<longrightarrow>
      list_all2 unchanged_fields (jobs s) (jobs (snd (call c s)))) \<and>
   (create_job h d man s = Inr (j, s'') \<longrightarrow> jobs s'' = jobs s @ [j] \<or> jobs s'' = tl (jobs s @ [j])) \<and>
   jobs (snd (clear_completed s)) = filter (\<lambda>j. status j \<noteq> COMPLETED) (jobs s)"
proof -
  have a: "update_jobs r s = (s', r') \<longrightarrow>
      list_all2 unchanged_fields (jobs s) (jobs s') \<and> length (jobs s') = length (jobs s) \<and>
      job_counter s' = job_counter s \<and> max_jobs s' = max_jobs s \<and> running s' = running s"
  proof
    assume "update_jobs r s = (s', r')"
    then have s': "s' = s\<lparr>jobs := fst (update_loop r (jobs s))\<rparr>"
      using update_jobs_frame [of r s] by simp
    from update_loop_unchanged [of "jobs s" r] list_all2_lengthD [OF update_loop_unchanged [of "jobs s" r]]
    show "list_all2 unchanged_fields (jobs s) (jobs s') \<and> length (jobs s') = length (jobs s) \<and>
      job_counter s' = job_counter s \<and> max_jobs s' = max_jobs s \<and> running s' = running s"
      by (simp add: s')
  qed
  have b: "\<forall>j' \<in> set (jobs (exec cs (init m))).
      \<exists>j \<in> set (created_jobs (run cs (init m))). unchanged_fields j j'"
  proof
    fix j' assume "j' \<in> set (jobs (exec cs (init m)))"
    from exec_frame [OF this] show "\<exists>j \<in> set (created_jobs (run cs (init m))). unchanged_fields j j'"
      by (simp add: init_def)
  qed
  have c: "(\<forall>h d man. c \<noteq> CreateJob h d man) \<and> c \<noteq> ClearCompleted \<longrightarrow>
      list_all2 unchanged_fields (jobs s) (jobs (snd (call c s)))"
    using call_keeps_entries [of c s] by blast
  have d: "create_job h d man s = Inr (j, s'') \<longrightarrow> jobs s'' = jobs s @ [j] \<or> jobs s'' = tl (jobs s @ [j])"
  proof
    assume "create_job h d man s = Inr (j, s'')"
    from create_job_Inr(11) [OF this] show "jobs s'' = jobs s @ [j] \<or> jobs s'' = tl (jobs s @ [j])"
      by (simp split: if_splits)
  qed
  have e: "jobs (snd (clear_completed s)) = filter (\<lambda>j. status j \<noteq> COMPLETED) (jobs s)"
    by (simp add: clear_completed_def Let_def)
  from a b c d e show ?thesis by simp
qed

lemma update_job_zero:
  "update_job (\<lambda>_. 0) (ex_job n st ts) =
     (ex_job n (case st of QUEUED \<Rightarrow> RUNNING | RUNNING \<Rightarrow> COMPLETED | _ \<Rightarrow> st) ts, \<lambda>_. 0)"
  by (cases st) (simp_all add: update_job_def random_random_def ex_job_def)

lemma update_jobs_ex_sim:
  "update_jobs (\<lambda>_. 0) ex_sim =
     (ex_sim\<lparr>jobs := [ex_job 1 COMPLETED ''a'', ex_job 2 RUNNING ''b'', ex_job 3 COMPLETED ''c'',
        ex_job 4 COMPLETED ''d'']\<rparr>, \<lambda>_. 0)"
  by (simp add: update_jobs_def ex_sim_def update_job_zero)

theorem only_status_changes_witness:
  "update_jobs (\<lambda>_. 0) ex_sim =
     (ex_sim\<lparr>jobs := [ex_job 1 COMPLETED ''a'', ex_job 2 RUNNING ''b'', ex_job 3 COMPLETED ''c'',
        ex_job 4 COMPLETED ''d'']\<rparr>, \<lambda>_. 0) \<and>
   list_all2 unchanged_fields (jobs ex_sim)
     [ex_job 1 COMPLETED ''a'', ex_job 2 RUNNING ''b'', ex_job 3 COMPLETED ''c'', ex_job 4 COMPLETED ''d''] \<and>
   jobs (exec [CreateJob ex_host ex_draws False, UpdateJobs (\<lambda>_. 0)] (init 3)) =
     [ex_job 1 RUNNING ''2025-01-01T00:00:00+00:00''] \<and>
   (\<exists>j \<in> set (created_jobs (run [CreateJob ex_host ex_draws False, UpdateJobs (\<lambda>_. 0)] (init 3))).
      unchanged_fields j (ex_job 1 RUNNING ''2025-01-01T00:00:00+00:00'')) \<and>
   list_all2 unchanged_fields (jobs ex_sim) (jobs (snd (call (UpdateJobs (\<lambda>_. 0) :: int op) ex_sim))) \<and>
   create_job ex_host ex_draws False (ex_state [1, 2] 3 2) = Inr (ex_new 3, ex_state [2, 3] 4 2)"
proof -
  let ?cs = "[CreateJob ex_host ex_draws False, UpdateJobs (\<lambda>_. 0)]"
  let ?c = "UpdateJobs (\<lambda>_. 0) :: int op"
  note t = only_status_changes [of 0 ex_sim "''x''" "\<lambda>_. 0"
      "ex_sim\<lparr>jobs := [ex_job 1 COMPLETED ''a'', ex_job 2 RUNNING ''b'', ex_job 3 COMPLETED ''c'',
        ex_job 4 COMPLETED ''d'']\<rparr>" "\<lambda>_. 0" ?cs 3 ?c
      ex_host ex_draws False "ex_new 3" "ex_state [2, 3] 4 2"]
  have ex: "jobs (exec ?cs (init 3)) = [ex_job 1 RUNNING ''2025-01-01T00:00:00+00:00'']"
    by (simp add: init_ex_state create_job_ex_state update_jobs_def)
       (simp add: ex_state_def ex_new_def update_job_zero)
  have mem: "ex_job 1 RUNNING ''2025-01-01T00:00:00+00:00'' \<in> set (jobs (exec ?cs (init 3)))"
    by (simp only: ex) simp
  have c: "(\<forall>h d man. ?c \<noteq> CreateJob h d man) \<and> ?c \<noteq> ClearCompleted" by simp
  have cj: "create_job ex_host ex_draws False (ex_state [1, 2] 3 2) = Inr (ex_new 3, ex_state [2, 3] 4 2)"
    by (simp add: create_job_ex_state)
  from t update_jobs_ex_sim
  have 1: "list_all2 unchanged_fields (jobs ex_sim)
     (jobs (ex_sim\<lparr>jobs := [ex_job 1 COMPLETED ''a'', ex_job 2 RUNNING ''b'', ex_job 3 COMPLETED ''c'',
        ex_job 4 COMPLETED ''d'']\<rparr>))" by blast
  from t mem have 2: "\<exists>j \<in> set (created_jobs (run ?cs (init 3))).
      unchanged_fields j (ex_job 1 RUNNING ''2025-01-01T00:00:00+00:00'')" by blast
  from t c have 3: "list_all2 unchanged_fields (jobs ex_sim) (jobs (snd (call ?c ex_sim)))" by blast
  from 1 have f1: "list_all2 unchanged_fields (jobs ex_sim)
     [ex_job 1 COMPLETED ''a'', ex_job 2 RUNNING ''b'', ex_job 3 COMPLETED ''c'', ex_job 4 COMPLETED ''d'']"
    by simp
  from update_jobs_ex_sim f1 ex 2 3 cj show ?thesis by blast
qed

subsection \<open>Identifiers in order of creation\<close>

lemma id_before_irrefl: "\<not> id_before a a"
  by (auto simp: id_before_def bqj_eq_iff)

lemma sorted_wrt_id_before_distinct: "sorted_wrt id_before xs \<Longrightarrow> distinct xs"
  by (induction xs) (auto simp: id_before_irrefl)

lemma sorted_wrt_tl: "sorted_wrt P xs \<Longrightarrow> sorted_wrt P (tl xs)"
  by (cases xs) simp_all

lemma ids_ordered_init: "ids_ordered (init m)"
  by (simp add: ids_ordered_def init_def)

lemma ids_ordered_distinct: "ids_ordered s \<Longrightarrow> distinct (map job_id (jobs s))"
  by (simp add: ids_ordered_def sorted_wrt_id_before_distinct)

lemma ids_ordered_same_ids:
  "ids_ordered s \<Longrightarrow> map job_id (jobs s') = map job_id (jobs s) \<Longrightarrow>
     job_counter s' = job_counter s \<Longrightarrow> ids_ordered s'"
  by (simp add: ids_ordered_def)

lemma ids_ordered_create:
  assumes inv: "ids_ordered s" and r: "create_job h d man s = Inr (j, s')"
  shows "ids_ordered s'"
proof -
  let ?ids = "map job_id (jobs s)"
  let ?c = "job_counter s"
  from inv have pos: "1 \<le> ?c" and srt: "sorted_wrt id_before ?ids"
    and bnd: "\<forall>i \<in> set ?ids. \<exists>n. i = bqj n \<and> 1 \<le> n \<and> n < ?c"
    by (simp_all add: ids_ordered_def)
  have before: "\<forall>i \<in> set ?ids. id_before i (bqj ?c)"
  proof
    fix i assume "i \<in> set ?ids"
    with bnd obtain n where "i = bqj n" "n < ?c" by blast
    then show "id_before i (bqj ?c)" unfolding id_before_def by blast
  qed
  from srt before have srt': "sorted_wrt id_before (?ids @ [bqj ?c])"
    by (simp add: sorted_wrt_append)
  have bnd': "\<forall>i \<in> set (?ids @ [bqj ?c]). \<exists>n. i = bqj n \<and> 1 \<le> n \<and> n < ?c + 1"
  proof
    fix i assume "i \<in> set (?ids @ [bqj ?c])"
    then consider "i \<in> set ?ids" | "i = bqj ?c" by auto
    then show "\<exists>n. i = bqj n \<and> 1 \<le> n \<and> n < ?c + 1"
    proof cases
      case 1
      with bnd obtain n where "i = bqj n" "1 \<le> n" "n < ?c" by blast
      then have "i = bqj n \<and> 1 \<le> n \<and> n < ?c + 1" by simp
      then show ?thesis ..
    next
      case 2
      with pos have "i = bqj ?c \<and> 1 \<le> ?c \<and> ?c < ?c + 1" by simp
      then show ?thesis ..
    qed
  qed
  from create_job_Inr(1,8,11) [OF r]
  have ids': "map job_id (jobs s') = ?ids @ [bqj ?c] \<or> map job_id (jobs s') = tl (?ids @ [bqj ?c])"
    and c': "job_counter s' = ?c + 1"
    by (simp_all add: map_tl split: if_splits)
  from ids' show ?thesis
  proof
    assume "map job_id (jobs s') = ?ids @ [bqj ?c]"
    with srt' bnd' c' pos show ?thesis by (simp add: ids_ordered_def)
  next
    assume e: "map job_id (jobs s') = tl (?ids @ [bqj ?c])"
    from srt' have 1: "sorted_wrt id_before (tl (?ids @ [bqj ?c]))" by (rule sorted_wrt_tl)
    from bnd' set_tl_subset [of "?ids @ [bqj ?c]"]
    have 2: "\<forall>i \<in> set (tl (?ids @ [bqj ?c])). \<exists>n. i = bqj n \<and> 1 \<le> n \<and> n < ?c + 1"
      by blast
    from 1 2 c' pos show ?thesis unfolding ids_ordered_def e by simp
  qed
qed

lemma ids_ordered_call: "ids_ordered s \<Longrightarrow> ids_ordered (snd (call c s))"
proof (cases c)
  case (CreateJob h d man)
  assume inv: "ids_ordered s"
  show ?thesis
  proof (cases rule: call_CreateJob_cases [of h d man s])
    case (raised e)
    with CreateJob inv show ?thesis by simp
  next
    case (created j s')
    with CreateJob ids_ordered_create [OF inv created(1)] show ?thesis by simp
  qed
next
  case (UpdateJobs r)
  assume inv: "ids_ordered s"
  from UpdateJobs show ?thesis
    by (simp add: update_jobs_frame) (rule ids_ordered_same_ids [OF inv], simp_all add: update_loop_ids)
next
  case ClearCompleted
  assume inv: "ids_ordered s"
  let ?P = "\<lambda>j. status j \<noteq> COMPLETED"
  from inv have "sorted_wrt (\<lambda>a b. id_before (job_id a) (job_id b)) (jobs s)"
    by (simp add: ids_ordered_def sorted_wrt_map)
  then have "sorted_wrt (\<lambda>a b. id_before (job_id a) (job_id b)) (filter ?P (jobs s))"
    by (rule sorted_wrt_filter)
  then have 1: "sorted_wrt id_before (map job_id (filter ?P (jobs s)))"
    by (simp add: sorted_wrt_map)
  from inv have 2: "\<forall>i \<in> set (map job_id (filter ?P (jobs s))). \<exists>n. i = bqj n \<and> 1 \<le> n \<and> n < job_counter s"
    by (auto simp: ids_ordered_def)
  from inv have 3: "1 \<le> job_counter s" by (simp add: ids_ordered_def)
  from 1 2 3 ClearCompleted show ?thesis
    by (simp add: ids_ordered_def clear_completed_def Let_def)
qed simp_all

lemma ids_ordered_exec: "ids_ordered s \<Longrightarrow> ids_ordered (exec cs s)"
  by (induction cs arbitrary: s) (simp_all add: ids_ordered_call)

lemma call_job_counter:
  "job_counter (snd (call c s)) =
     (case fst (call c s) of Created j \<Rightarrow> job_counter s + 1 | _ \<Rightarrow> job_counter s)"
proof (cases c)
  case (CreateJob h d man)
  show ?thesis
    by (cases rule: call_CreateJob_cases [of h d man s])
       (simp_all add: CreateJob create_job_Inr(8))
qed (simp_all add: update_jobs_frame clear_completed_def Let_def)

lemma call_Created_id: "fst (call c s) = Created j \<Longrightarrow> job_id j = bqj (job_counter s)"
proof (cases c)
  case (CreateJob h d man)
  assume a: "fst (call c s) = Created j"
  show ?thesis
  proof (cases rule: call_CreateJob_cases [of h d man s])
    case (raised e)
    with CreateJob a show ?thesis by simp
  next
    case (created j0 s')
    with CreateJob a create_job_Inr(1) [OF created(1)] show ?thesis by simp
  qed
qed (simp_all add: clear_completed_def Let_def)

lemma exec_job_counter_mono: "job_counter s \<le> job_counter (exec cs s)"
proof (induction cs arbitrary: s)
  case Nil
  show ?case by simp
next
  case (Cons c cs)
  have "job_counter s \<le> job_counter (snd (call c s))"
    by (simp add: call_job_counter split: result.splits)
  also have "\<dots> \<le> job_counter (exec cs (snd (call c s)))" by (rule Cons.IH)
  finally show ?case by simp
qed

lemma created_ids:
  "map job_id (created_jobs (run cs s)) = map bqj [job_counter s .. job_counter (exec cs s) - 1]"
proof (induction cs arbitrary: s)
  case Nil
  show ?case by simp
next
  case (Cons c cs)
  let ?s1 = "snd (call c s)"
  note IH = Cons.IH [of ?s1]
  show ?case
  proof (cases "\<exists>j. fst (call c s) = Created j")
    case True
    then obtain j where j: "fst (call c s) = Created j" by blast
    then have c1: "job_counter ?s1 = job_counter s + 1" by (simp add: call_job_counter)
    from exec_job_counter_mono [of ?s1 cs] c1
    have le: "job_counter s \<le> job_counter (exec cs ?s1) - 1" by simp
    have "map job_id (created_jobs (run (c # cs) s)) = job_id j # map job_id (created_jobs (run cs ?s1))"
      by (subst created_jobs_run_Cons) (simp add: j)
    also have "\<dots> = bqj (job_counter s) # map bqj [job_counter s + 1 .. job_counter (exec cs ?s1) - 1]"
      by (simp add: IH c1 call_Created_id [OF j])
    also have "\<dots> = map bqj [job_counter s .. job_counter (exec cs ?s1) - 1]"
      using upto_rec1 [OF le] by simp
    finally show ?thesis by simp
  next
    case False
    then have c1: "job_counter ?s1 = job_counter s"
      by (cases "fst (call c s)") (simp_all add: call_job_counter)
    from False have "created_jobs (run (c # cs) s) = created_jobs (run cs ?s1)"
      by (subst created_jobs_run_Cons) (cases "fst (call c s)", simp_all)
    with IH c1 show ?thesis by simp
  qed
qed

lemma call_ids_subseq:
  "subseq (map job_id (jobs (snd (call c s))))
     (map job_id (jobs s) @ map job_id (case fst (call c s) of Created j \<Rightarrow> [j] | _ \<Rightarrow> []))"
proof (cases c)
  case (CreateJob h d man)
  show ?thesis
  proof (cases rule: call_CreateJob_cases [of h d man s])
    case (raised e)
    with CreateJob show ?thesis by simp
  next
    case (created j s')
    have "subseq (tl (jobs s @ [j])) (jobs s @ [j])"
      by (cases "jobs s @ [j]") (simp_all add: subseq_Cons')
    then have "subseq (map job_id (tl (jobs s @ [j]))) (map job_id (jobs s @ [j]))"
      by (rule subseq_map)
    with CreateJob created create_job_Inr(11) [OF created(1)] show ?thesis
      by (simp split: if_splits)
  qed
next
  case (UpdateJobs r)
  then show ?thesis by (simp add: update_jobs_frame update_loop_ids)
next
  case ClearCompleted
  have "subseq (map job_id (filter (\<lambda>j. status j \<noteq> COMPLETED) (jobs s))) (map job_id (jobs s))"
    by (rule subseq_map) simp
  with ClearCompleted show ?thesis by (simp add: clear_completed_def Let_def)
qed simp_all

lemma exec_ids_subseq:
  "subseq (map job_id (jobs (exec cs s)))
     (map job_id (jobs s) @ map job_id (created_jobs (run cs s)))"
proof (induction cs arbitrary: s)
  case Nil
  show ?case by simp
next
  case (Cons c cs)
  let ?s1 = "snd (call c s)"
  let ?new = "map job_id (case fst (call c s) of Created j \<Rightarrow> [j] | _ \<Rightarrow> [])"
  let ?rest = "map job_id (created_jobs (run cs ?s1))"
  have "subseq (map job_id (jobs (exec cs ?s1))) (map job_id (jobs ?s1) @ ?rest)"
    by (rule Cons.IH)
  also have "subseq (map job_id (jobs ?s1) @ ?rest) ((map job_id (jobs s) @ ?new) @ ?rest)"
    using call_ids_subseq [of c s] by (intro list_emb_append_mono) simp_all
  finally have "subseq (map job_id (jobs (exec cs ?s1))) (map job_id (jobs s) @ ?new @ ?rest)"
    by simp
  moreover have "map job_id (created_jobs (run (c # cs) s)) = ?new @ ?rest"
    by (subst created_jobs_run_Cons) simp
  ultimately show ?case by simp
qed

lemma simulation_step_exec:
  assumes "simulation_step h d r s = Inr (s1, r1)"
  shows "s1 = exec [CreateJob h d False, UpdateJobs (snd (random_random r))] s \<or>
         s1 = exec [UpdateJobs (snd (random_random r))] s"
proof (cases "fst (random_random r) < 1 / 2")
  case True
  show ?thesis
  proof (cases rule: call_CreateJob_cases [of h d False s])
    case (raised e)
    with True assms show ?thesis
      by (simp add: simulation_step_def split: prod.splits)
  next
    case (created j s')
    with True assms have "s1 = fst (update_jobs (snd (random_random r)) s')"
      by (auto simp: simulation_step_def split: prod.splits)
    with created show ?thesis by simp
  qed
next
  case False
  with assms have "s1 = fst (update_jobs (snd (random_random r)) s)"
    by (auto simp: simulation_step_def split: prod.splits)
  then show ?thesis by simp
qed

text \<open>
  C5. \<^verbatim>\<open>create_job\<close> gives the new job the identifier \<^verbatim>\<open>BQJ-\<close> followed by the counter
  in decimal and adds one to the counter; the background loop creates jobs through the
  same call. After any sequence of calls on a new simulator, the identifiers handed out
  are \<^verbatim>\<open>BQJ-1\<close>, \<^verbatim>\<open>BQJ-2\<close>, ... in this order, no two of them equal (different numbers
  give different strings), and the identifiers of the collection are a subsequence of
  them, with increasing numbers along the list.
\<close>

theorem ids_strictly_increasing:
  "(create_job h d man s = Inr (j, s') \<longrightarrow>
      job_id j = ''BQJ-'' @ str_int (job_counter s) \<and> job_counter s' = job_counter s + 1) \<and>
   (simulation_step h d r s = Inr (s1, r1) \<longrightarrow>
      s1 = exec [CreateJob h d False, UpdateJobs (snd (random_random r))] s \<or>
      s1 = exec [UpdateJobs (snd (random_random r))] s) \<and>
   map job_id (created_jobs (run cs (init m))) = map bqj [1 .. job_counter (exec cs (init m)) - 1] \<and>
   distinct (map job_id (created_jobs (run cs (init m)))) \<and>
   (\<forall>a b. bqj a = bqj b \<longleftrightarrow> a = b) \<and>
   sorted_wrt id_before (map job_id (jobs (exec cs (init m)))) \<and>
   subseq (map job_id (jobs (exec cs (init m)))) (map job_id (created_jobs (run cs (init m))))"
proof -
  have 1: "create_job h d man s = Inr (j, s') \<longrightarrow>
      job_id j = ''BQJ-'' @ str_int (job_counter s) \<and> job_counter s' = job_counter s + 1"
    using create_job_Inr(1,8) [of h d man s j s'] by (simp add: bqj_def)
  have 2: "simulation_step h d r s = Inr (s1, r1) \<longrightarrow>
      s1 = exec [CreateJob h d False, UpdateJobs (snd (random_random r))] s \<or>
      s1 = exec [UpdateJobs (snd (random_random r))] s"
    using simulation_step_exec [of h d r s s1 r1] by blast
  have 3: "map job_id (created_jobs (run cs (init m))) = map bqj [1 .. job_counter (exec cs (init m)) - 1]"
    using created_ids [of cs "init m"] by (simp add: init_def)
  have 4: "distinct (map job_id (created_jobs (run cs (init m))))"
    unfolding 3 by (simp add: distinct_map inj_on_def bqj_eq_iff)
  have 5: "sorted_wrt id_before (map job_id (jobs (exec cs (init m))))"
    using ids_ordered_exec [OF ids_ordered_init, of cs m] by (simp add: ids_ordered_def)
  have 6: "subseq (map job_id (jobs (exec cs (init m)))) (map job_id (created_jobs (run cs (init m))))"
    using exec_ids_subseq [of cs "init m"] by (simp add: init_def)
  from 1 2 3 4 5 6 show ?thesis by (simp add: bqj_eq_iff)
qed

theorem ids_strictly_increasing_witness:
  "create_job ex_host ex_draws False (init 3) = Inr (ex_new 1, ex_state [1] 2 3) \<and>
   job_id (ex_new 1) = ''BQJ-1'' \<and>
   simulation_step ex_host ex_draws (\<lambda>_. 0) (init 3) =
     Inr (exec [CreateJob ex_host ex_draws False, UpdateJobs (\<lambda>_. 0)] (init 3), \<lambda>_. 0)"
proof -
  let ?s1 = "ex_state [1] 2 3\<lparr>jobs := [ex_job 1 RUNNING ''2025-01-01T00:00:00+00:00'']\<rparr>"
  have c: "create_job ex_host ex_draws False (init 3) = Inr (ex_new 1, ex_state [1] 2 3)"
    by (simp add: init_ex_state create_job_ex_state)
  have st: "simulation_step ex_host ex_draws (\<lambda>_. 0) (init 3) = Inr (?s1, \<lambda>_. 0)"
    by (simp add: simulation_step_def random_random_def init_ex_state create_job_ex_state update_jobs_def)
       (simp add: ex_state_def ex_new_def update_job_zero)
  have r: "snd (random_random (\<lambda>_. 0)) = (\<lambda>_. 0)"
    by (simp add: random_random_def)
  have ne: "?s1 \<noteq> exec [UpdateJobs (\<lambda>_. 0)] (init 3)"
    by (simp add: init_def update_jobs_def ex_state_def)
  note t = ids_strictly_increasing [where h = ex_host and d = ex_draws and man = False
      and s = "init 3" and j = "ex_new 1" and s' = "ex_state [1] 2 3" and r = "\<lambda>_. 0"
      and ?s1.0 = ?s1 and ?r1.0 = "\<lambda>_. 0"]
  from t c have "job_id (ex_new 1) = ''BQJ-'' @ str_int (job_counter (init 3))" by blast
  moreover have "str_int 1 = ''1''" by code_simp
  ultimately have i: "job_id (ex_new 1) = ''BQJ-1''"
    by (simp add: init_def)
  from t st have "?s1 = exec [CreateJob ex_host ex_draws False, UpdateJobs (snd (random_random (\<lambda>_. 0)))] (init 3) \<or>
      ?s1 = exec [UpdateJobs (snd (random_random (\<lambda>_. 0)))] (init 3)" by blast
  with ne have ex: "?s1 = exec [CreateJob ex_host ex_draws False, UpdateJobs (\<lambda>_. 0)] (init 3)"
    unfolding r by blast
  from c i st ex show ?thesis by (simp only:)
qed

subsection \<open>The status of a job over time\<close>

lemma get_job_loop_id: "get_job_loop js i = Some j \<Longrightarrow> job_id j = i \<and> j \<in> set js"
  by (induction js) (auto split: if_splits)

lemma get_job_loop_append:
  "get_job_loop (js @ ks) i = (case get_job_loop js i of Some j \<Rightarrow> Some j | None \<Rightarrow> get_job_loop ks i)"
  by (induction js) simp_all

lemma distinct_ids_head:
  "distinct (map job_id (a # js)) \<Longrightarrow> j \<in> set js \<Longrightarrow> job_id j \<noteq> job_id a"
proof
  assume d: "distinct (map job_id (a # js))" and m: "j \<in> set js" and e: "job_id j = job_id a"
  from m have "job_id j \<in> set (map job_id js)" by simp
  with e have "job_id a \<in> set (map job_id js)" by simp
  with d show False by simp
qed

lemma get_job_loop_filter:
  "distinct (map job_id js) \<Longrightarrow>
     get_job_loop (filter P js) i =
       (case get_job_loop js i of Some j \<Rightarrow> if P j then Some j else None | None \<Rightarrow> None)"
proof (induction js)
  case Nil
  show ?case by simp
next
  case (Cons a js)
  show ?case
  proof (cases "job_id a = i")
    case True
    with distinct_ids_head [OF Cons.prems] have "\<forall>j \<in> set js. job_id j \<noteq> i" by auto
    then have "\<forall>j \<in> set (filter P js). job_id j \<noteq> i" by simp
    then have "get_job_loop (filter P js) i = None" by (simp only: get_job_loop_None)
    with True show ?thesis by simp
  next
    case False
    with Cons show ?thesis by simp
  qed
qed

lemma get_job_loop_tl:
  "distinct (map job_id js) \<Longrightarrow>
     get_job_loop (tl js) i =
       (case js of [] \<Rightarrow> None | a # _ \<Rightarrow> if job_id a = i then None else get_job_loop js i)"
proof (cases js)
  case Nil
  then show ?thesis by simp
next
  case (Cons a ks)
  assume "distinct (map job_id js)"
  with Cons distinct_ids_head [of a ks]
  have "job_id a = i \<longrightarrow> (\<forall>j \<in> set ks. job_id j \<noteq> i)" by auto
  then have "job_id a = i \<longrightarrow> get_job_loop ks i = None" by (simp only: get_job_loop_None)
  with Cons show ?thesis by simp
qed

lemma get_job_loop_list_all2:
  assumes "list_all2 Q js js'" and "\<And>a b. Q a b \<Longrightarrow> job_id b = job_id a"
  shows "case get_job_loop js i of
           None \<Rightarrow> get_job_loop js' i = None
         | Some j \<Rightarrow> (\<exists>j'. get_job_loop js' i = Some j' \<and> Q j j')"
  using assms(1)
proof (induction js js' rule: list_all2_induct)
  case Nil
  show ?case by simp
next
  case (Cons a js b js')
  from assms(2) [OF Cons.hyps(1)] have "job_id b = job_id a" .
  with Cons show ?case by (auto split: option.splits)
qed

lemma ids_ordered_snoc_distinct:
  assumes "ids_ordered s"
  shows "distinct (map job_id (jobs s) @ [bqj (job_counter s)])"
proof -
  from assms have d: "distinct (map job_id (jobs s))" by (rule ids_ordered_distinct)
  have "bqj (job_counter s) \<notin> set (map job_id (jobs s))"
  proof
    assume "bqj (job_counter s) \<in> set (map job_id (jobs s))"
    with assms obtain n where "bqj (job_counter s) = bqj n" "n < job_counter s"
      unfolding ids_ordered_def by blast
    then show False by (simp add: bqj_eq_iff)
  qed
  with d show ?thesis by simp
qed

lemma present_retired:
  assumes "ids_ordered s" "get_job s i = Some j"
  shows "retired i s"
proof -
  from assms(2) have "i \<in> set (map job_id (jobs s))"
    using get_job_loop_id [of "jobs s" i j] by (auto simp: get_job_def)
  with assms(1) obtain n where "i = bqj n" "n < job_counter s"
    unfolding ids_ordered_def by blast
  then show ?thesis by (auto simp: retired_def bqj_eq_iff)
qed

lemma retired_call: "retired i s \<Longrightarrow> retired i (snd (call c s))"
  by (cases "fst (call c s)") (auto simp: retired_def call_job_counter)

lemma call_status_step:
  assumes inv: "ids_ordered s"
  shows "case get_job s i of
           Some j \<Rightarrow> get_job (snd (call c s)) i = None \<or>
             (\<exists>j'. get_job (snd (call c s)) i = Some j' \<and> advance (status j) (status j'))
         | None \<Rightarrow>
             (retired i s \<longrightarrow> get_job (snd (call c s)) i = None) \<and>
             (get_job (snd (call c s)) i = None \<or>
              (\<exists>j'. get_job (snd (call c s)) i = Some j' \<and> status j' = QUEUED))"
proof (cases c)
  case (CreateJob h d man)
  show ?thesis
  proof (cases rule: call_CreateJob_cases [of h d man s])
    case (raised e)
    with CreateJob show ?thesis by (auto simp: advance_refl split: option.splits)
  next
    case (created j0 s')
    note cj = create_job_Inr(1,3,11) [OF created(1)]
    let ?all = "jobs s @ [j0]"
    from ids_ordered_snoc_distinct [OF inv] cj(1) have d: "distinct (map job_id ?all)" by simp
    have app: "get_job_loop ?all i =
        (case get_job_loop (jobs s) i of Some j \<Rightarrow> Some j
         | None \<Rightarrow> if bqj (job_counter s) = i then Some j0 else None)"
      by (simp add: get_job_loop_append cj(1) split: option.splits)
    have after: "get_job_loop (jobs s') i = get_job_loop ?all i \<or> get_job_loop (jobs s') i = None"
      using cj(3) get_job_loop_tl [OF d, of i] by (auto split: if_splits list.splits)
    have s1: "snd (call c s) = s'" using CreateJob created by simp
    show ?thesis
    proof (cases "get_job_loop (jobs s) i")
      case (Some j)
      with app after show ?thesis
        unfolding s1 get_job_def by (auto simp: advance_refl)
    next
      case None
      with app after cj(2) show ?thesis
        unfolding s1 get_job_def by (auto simp: retired_def)
    qed
  qed
next
  case (UpdateJobs r)
  let ?Q = "\<lambda>j j'. unchanged_fields j j' \<and> advance (status j) (status j') \<and>
       (status j = COMPLETED \<or> status j = FAILED \<longrightarrow> j' = j)"
  have "case get_job_loop (jobs s) i of
           None \<Rightarrow> get_job_loop (fst (update_loop r (jobs s))) i = None
         | Some j \<Rightarrow> (\<exists>j'. get_job_loop (fst (update_loop r (jobs s))) i = Some j' \<and> ?Q j j')"
    by (rule get_job_loop_list_all2 [OF update_loop_step]) (simp add: unchanged_fields_def)
  with UpdateJobs show ?thesis
    by (auto simp: get_job_def update_jobs_frame split: option.splits)
next
  case (GetJobs limit)
  then show ?thesis by (auto simp: advance_refl split: option.splits)
next
  case (GetJob k)
  then show ?thesis by (auto simp: advance_refl split: option.splits)
next
  case ClearCompleted
  from ids_ordered_distinct [OF inv]
  have "get_job_loop (filter (\<lambda>j. status j \<noteq> COMPLETED) (jobs s)) i =
       (case get_job_loop (jobs s) i of
          Some j \<Rightarrow> if status j \<noteq> COMPLETED then Some j else None | None \<Rightarrow> None)"
    by (rule get_job_loop_filter)
  with ClearCompleted show ?thesis
    by (auto simp: get_job_def clear_completed_def Let_def advance_refl split: option.splits)
qed

lemma status_history_run_Cons:
  "status_history i (map snd (run (c # cs) s)) =
     (case get_job (snd (call c s)) i of None \<Rightarrow> [] | Some j \<Rightarrow> [status j]) @
     status_history i (map snd (run cs (snd (call c s))))"
  by (simp split: option.splits)

lemma history_from:
  assumes "ids_ordered s"
  shows "case get_job s i of
           Some j \<Rightarrow> successively advance (status j # status_history i (map snd (run cs s)))
         | None \<Rightarrow>
             (retired i s \<longrightarrow> status_history i (map snd (run cs s)) = []) \<and>
             lifecycle (status_history i (map snd (run cs s)))"
  using assms
proof (induction cs arbitrary: s)
  case Nil
  show ?case by (simp add: lifecycle_def split: option.splits)
next
  case (Cons c cs)
  let ?s1 = "snd (call c s)"
  let ?rest = "status_history i (map snd (run cs ?s1))"
  have inv1: "ids_ordered ?s1" using Cons.prems by (rule ids_ordered_call)
  note IH = Cons.IH [OF inv1]
  note step = call_status_step [OF Cons.prems, of i c]
  show ?case
  proof (cases "get_job s i")
    case (Some j)
    from present_retired [OF Cons.prems Some] have "retired i ?s1" by (rule retired_call)
    show ?thesis
    proof (cases "get_job ?s1 i")
      case None
      with IH \<open>retired i ?s1\<close> have "?rest = []" by simp
      with Some None show ?thesis by (simp only: status_history_run_Cons) simp
    next
      case (Some j1)
      with step \<open>get_job s i = Some j\<close> have "advance (status j) (status j1)" by simp
      moreover from IH Some have "successively advance (status j1 # ?rest)" by simp
      ultimately show ?thesis
        using Some \<open>get_job s i = Some j\<close> by (simp only: status_history_run_Cons) simp
    qed
  next
    case None
    show ?thesis
    proof (cases "get_job ?s1 i")
      case absent: None
      from IH absent have l: "lifecycle ?rest" by simp
      have "retired i s \<longrightarrow> ?rest = []"
      proof
        assume "retired i s"
        then have "retired i ?s1" by (rule retired_call)
        with IH absent show "?rest = []" by simp
      qed
      with l None absent show ?thesis by (simp only: status_history_run_Cons) simp
    next
      case (Some j1)
      with step None have q: "status j1 = QUEUED" and nr: "\<not> retired i s" by auto
      from IH Some have "successively advance (status j1 # ?rest)" by simp
      with q have "lifecycle (status j1 # ?rest)" by (simp add: lifecycle_def)
      with nr None Some show ?thesis by (simp only: status_history_run_Cons) simp
    qed
  qed
qed

lemma advance_iff:
  "advance a b \<longleftrightarrow> a = b \<or> (a = QUEUED \<and> b = RUNNING) \<or> (a = RUNNING \<and> (b = COMPLETED \<or> b = FAILED))"
  by (cases a; cases b) simp_all

text \<open>
  C1. One pass of \<^verbatim>\<open>update_jobs\<close> leaves every COMPLETED or FAILED job as it is and
  moves the status of any other job by at most one step of the chain QUEUED, RUNNING,
  then COMPLETED or FAILED. Over any sequence of calls on a new simulator, the statuses
  that the job with a given identifier shows, from state to state while it is in the
  collection, start at QUEUED and move by such steps only: no status comes back, and
  COMPLETED and FAILED are entered from RUNNING.
\<close>

theorem status_chain:
  "(update_jobs r s = (s', r') \<longrightarrow>
      list_all2 (\<lambda>j j'. advance (status j) (status j') \<and>
                   (status j = COMPLETED \<or> status j = FAILED \<longrightarrow> j' = j)) (jobs s) (jobs s')) \<and>
   (\<forall>a b. advance a b \<longleftrightarrow>
      a = b \<or> (a = QUEUED \<and> b = RUNNING) \<or> (a = RUNNING \<and> (b = COMPLETED \<or> b = FAILED))) \<and>
   lifecycle (status_history i (init m # map snd (run cs (init m))))"
proof -
  have 1: "update_jobs r s = (s', r') \<longrightarrow>
      list_all2 (\<lambda>j j'. advance (status j) (status j') \<and>
                   (status j = COMPLETED \<or> status j = FAILED \<longrightarrow> j' = j)) (jobs s) (jobs s')"
  proof
    assume "update_jobs r s = (s', r')"
    then have s': "jobs s' = fst (update_loop r (jobs s))"
      using update_jobs_frame [of r s] by simp
    show "list_all2 (\<lambda>j j'. advance (status j) (status j') \<and>
                   (status j = COMPLETED \<or> status j = FAILED \<longrightarrow> j' = j)) (jobs s) (jobs s')"
      unfolding s' using update_loop_step [of "jobs s" r] by (rule list_all2_mono) simp
  qed
  have 2: "get_job (init m) i = None" by (simp add: get_job_def init_def)
  with history_from [OF ids_ordered_init, of i m cs]
  have 3: "lifecycle (status_history i (init m # map snd (run cs (init m))))" by simp
  from 1 3 advance_iff show ?thesis by blast
qed

theorem status_chain_witness:
  "update_jobs (\<lambda>_. 0) ex_sim =
     (ex_sim\<lparr>jobs := [ex_job 1 COMPLETED ''a'', ex_job 2 RUNNING ''b'', ex_job 3 COMPLETED ''c'',
        ex_job 4 COMPLETED ''d'']\<rparr>, \<lambda>_. 0) \<and>
   list_all2 (\<lambda>j j'. advance (status j) (status j') \<and>
                (status j = COMPLETED \<or> status j = FAILED \<longrightarrow> j' = j))
     (jobs ex_sim)
     [ex_job 1 COMPLETED ''a'', ex_job 2 RUNNING ''b'', ex_job 3 COMPLETED ''c'', ex_job 4 COMPLETED ''d''] \<and>
   status_history (bqj 1)
     (init 3 # map snd (run [CreateJob ex_host ex_draws False, UpdateJobs (\<lambda>_. 0), UpdateJobs (\<lambda>_. 0)]
        (init 3))) = [QUEUED, RUNNING, COMPLETED] \<and>
   lifecycle [QUEUED, RUNNING, COMPLETED]"
proof -
  let ?cs = "[CreateJob ex_host ex_draws False, UpdateJobs (\<lambda>_. 0), UpdateJobs (\<lambda>_. 0)]"
  let ?s' = "ex_sim\<lparr>jobs := [ex_job 1 COMPLETED ''a'', ex_job 2 RUNNING ''b'', ex_job 3 COMPLETED ''c'',
        ex_job 4 COMPLETED ''d'']\<rparr>"
  note t = status_chain [where r = "\<lambda>_. 0" and s = ex_sim and s' = ?s' and r' = "\<lambda>_. 0"
      and i = "bqj 1" and m = 3 and cs = ?cs]
  let ?one = "\<lambda>st. \<lparr>jobs = [ex_job 1 st ''2025-01-01T00:00:00+00:00''], job_counter = 2,
      running = True, max_jobs = 3\<rparr>"
  have a1: "snd (call (CreateJob ex_host ex_draws False) (init 3)) = ?one QUEUED"
    by (simp add: init_ex_state create_job_ex_state) (simp add: ex_state_def ex_new_def)
  have a2: "snd (call (UpdateJobs (\<lambda>_. 0) :: int op) (?one st)) =
      ?one (case st of QUEUED \<Rightarrow> RUNNING | RUNNING \<Rightarrow> COMPLETED | _ \<Rightarrow> st)" for st
    by (simp add: update_jobs_def update_job_zero)
  have g: "get_job (?one st) (bqj 1) = Some (ex_job 1 st ''2025-01-01T00:00:00+00:00'')" for st
    by (simp add: get_job_def ex_job_def)
  have g0: "get_job (init 3) (bqj 1) = None" by (simp add: get_job_def init_def)
  have st: "status (ex_job 1 st ''2025-01-01T00:00:00+00:00'') = st" for st
    by (simp add: ex_job_def)
  have h: "status_history (bqj 1) (init 3 # map snd (run ?cs (init 3))) = [QUEUED, RUNNING, COMPLETED]"
    by (simp add: a1 a2 g g0 st del: call.simps)
  from t update_jobs_ex_sim
  have 1: "list_all2 (\<lambda>j j'. advance (status j) (status j') \<and>
                (status j = COMPLETED \<or> status j = FAILED \<longrightarrow> j' = j)) (jobs ex_sim) (jobs ?s')"
    by blast
  from t have "lifecycle (status_history (bqj 1) (init 3 # map snd (run ?cs (init 3))))" by blast
  then have 2: "lifecycle [QUEUED, RUNNING, COMPLETED]" by (simp only: h)
  from 1 have f1: "list_all2 (\<lambda>j j'. advance (status j) (status j') \<and>
                (status j = COMPLETED \<or> status j = FAILED \<longrightarrow> j' = j)) (jobs ex_sim)
     [ex_job 1 COMPLETED ''a'', ex_job 2 RUNNING ''b'', ex_job 3 COMPLETED ''c'', ex_job 4 COMPLETED ''d'']"
    by simp
  from update_jobs_ex_sim f1 h 2 show ?thesis by (simp only:)
qed

end
